theory Spec2Isabelle
  imports Complex_Main
begin

section \<open>Data model\<close>

text \<open>
  A JavaScript object whose property names are array indices (\<open>"0"\<close>, \<open>"1"\<close>, ...) is an
  association list kept in ascending key order: that is the order in which
  \<open>Object.keys\<close> and \<open>for ... in\<close> enumerate such properties. \<open>objSet\<close> is the
  assignment \<open>o[k] = v\<close>, \<open>objGet\<close> the read \<open>o[k]\<close> (\<open>None\<close> is \<open>undefined\<close>).
\<close>

type_synonym 'v obj = "(nat \<times> 'v) list"

definition objGet :: "'v obj \<Rightarrow> nat \<Rightarrow> 'v option" where
  "objGet d k = map_of d k"

fun objSet :: "nat \<Rightarrow> 'v \<Rightarrow> 'v obj \<Rightarrow> 'v obj" where
  "objSet k v [] = [(k, v)]"
| "objSet k v ((k', v') # d) =
     (if k = k' then (k, v) # d
      else if k < k' then (k, v) # (k', v') # d
      else (k', v') # objSet k v d)"

definition objKeys :: "'v obj \<Rightarrow> nat list" where
  "objKeys d = map fst d"

text \<open>An entry \<open>{r, c}\<close> of \<open>parsedData.matrixMap\<close>; both numbers come from \<open>\d+\<close>.\<close>

record matrixEntry =
  r :: nat
  c :: nat

text \<open>
  One value of \<open>parsedData.pinMap\<close>. Every property may be missing (\<open>None\<close>): the
  initial \<open>pinMap\<close> is \<open>{ left: {}, right: {} }\<close>, the parser creates \<open>row\<close> and
  \<open>col\<close> and adds the others only when it finds them.
\<close>

record shieldPins =
  row :: "string obj option"
  col :: "string obj option"
  gpios :: "string obj option"
  direct :: "string obj option"
  interrupt :: "string option"
  colOffset :: "nat option"
  rowOffset :: "nat option"

text \<open>
  The part of \<open>parsedData\<close> that the parser's pin pass writes and the failure analysis
  reads. \<open>pinMap\<close> lists the properties in \<open>Object.keys\<close> order.
\<close>

record parsedData =
  matrixMap :: "matrixEntry option list"
  pinMap :: "(string \<times> shieldPins) list"
  diodeDirection :: string

definition pinMapAt :: "parsedData \<Rightarrow> string \<Rightarrow> shieldPins option" where
  "pinMapAt pd s = map_of (pinMap pd) s"

definition matrixMapAt :: "parsedData \<Rightarrow> nat \<Rightarrow> matrixEntry option" where
  "matrixMapAt pd idx = (if idx < length (matrixMap pd) then matrixMap pd ! idx else None)"

section \<open>analyzeFailures: valid shields and the owner of a key\<close>

definition nonEmptyObj :: "'v obj option \<Rightarrow> bool" where
  "nonEmptyObj po = (case po of None \<Rightarrow> False | Some d \<Rightarrow> length (objKeys d) > 0)"

definition hasPins :: "shieldPins \<Rightarrow> bool" where
  "hasPins p = (nonEmptyObj (row p) \<or> nonEmptyObj (col p) \<or>
                nonEmptyObj (gpios p) \<or> nonEmptyObj (direct p))"

definition validShields :: "parsedData \<Rightarrow> string list" where
  "validShields pd =
     filter (\<lambda>s. case pinMapAt pd s of None \<Rightarrow> False | Some p \<Rightarrow> hasPins p)
            (map fst (pinMap pd))"

text \<open>\<open>validShields[0] || 'common'\<close>; shield names are never the empty string.\<close>

fun firstShield :: "string list \<Rightarrow> string" where
  "firstShield [] = ''common''"
| "firstShield (s # _) = s"

definition orZero :: "nat option \<Rightarrow> nat" where
  "orZero x = (case x of None \<Rightarrow> 0 | Some n \<Rightarrow> n)"

record pos =
  side :: string
  physC :: nat
  physR :: nat

text \<open>
  The body of the \<open>validShields.forEach\<close> inside \<open>getSideAndPhysCoords\<close>. The
  accumulator is \<open>(bestShield, physC, physR)\<close> with \<open>maxMatchScore\<close>.
\<close>

definition sideStep :: "parsedData \<Rightarrow> matrixEntry \<Rightarrow> string \<Rightarrow> pos \<times> int \<Rightarrow> pos \<times> int" where
  "sideStep pd m s acc =
     (case pinMapAt pd s of
        None \<Rightarrow> acc
      | Some p \<Rightarrow>
          (let offsetC = orZero (colOffset p); offsetR = orZero (rowOffset p) in
           if c m \<ge> offsetC \<and> r m \<ge> offsetR then
             (let score = int (offsetC + offsetR) in
              if score > snd acc
              then (\<lparr>side = s, physC = c m - offsetC, physR = r m - offsetR\<rparr>, score)
              else acc)
           else acc))"

text \<open>
  \<open>getSideAndPhysCoords\<close>. It is only reached when \<open>validShields\<close> is not empty
  (the function returns before), so \<open>validShields[0]\<close> is a shield name there.
\<close>

definition getSideAndPhysCoords :: "parsedData \<Rightarrow> matrixEntry option \<Rightarrow> pos" where
  "getSideAndPhysCoords pd mo =
     (case mo of
        None \<Rightarrow> \<lparr>side = firstShield (validShields pd), physC = 0, physR = 0\<rparr>
      | Some m \<Rightarrow>
          fst (fold (sideStep pd m) (validShields pd)
                 (\<lparr>side = firstShield (validShields pd), physC = c m, physR = r m\<rparr>, - 1)))"

section \<open>analyzeFailures: the accumulated counts\<close>

text \<open>
  \<open>groups[s]\<close> and \<open>counts[s]\<close> are objects \<open>{rows, cols}\<close>; \<open>charlieCounts[s]\<close> and
  \<open>charlieTotals[s]\<close> are objects \<open>{in, out}\<close>. The outer objects are keyed by shield name
  and never enumerated, so they are maps.
\<close>

record 'v rowsCols =
  rows :: "'v obj"
  cols :: "'v obj"

record inOut =
  roleIn :: "nat obj"
  roleOut :: "nat obj"

record locals =
  groups :: "string \<Rightarrow> nat list rowsCols option"
  counts :: "string \<Rightarrow> nat rowsCols option"
  charlieCounts :: "string \<Rightarrow> inOut option"
  charlieTotals :: "string \<Rightarrow> inOut option"

text \<open>The first \<open>validShields.forEach\<close>: an empty entry for every valid shield.\<close>

definition initStep :: "string \<Rightarrow> locals \<Rightarrow> locals" where
  "initStep s L =
     L\<lparr>groups := (groups L)(s \<mapsto> \<lparr>rows = [], cols = []\<rparr>),
       counts := (counts L)(s \<mapsto> \<lparr>rows = [], cols = []\<rparr>),
       charlieCounts := (charlieCounts L)(s \<mapsto> \<lparr>roleIn = [], roleOut = []\<rparr>),
       charlieTotals := (charlieTotals L)(s \<mapsto> \<lparr>roleIn = [], roleOut = []\<rparr>)\<rparr>"

definition noLocals :: locals where
  "noLocals = \<lparr>groups = Map.empty, counts = Map.empty,
               charlieCounts = Map.empty, charlieTotals = Map.empty\<rparr>"

text \<open>\<open>if (!o[k]) o[k] = 0; o[k]++\<close>, and \<open>o[k] = (o[k] || 0) + 1\<close>.\<close>

definition bump :: "nat obj \<Rightarrow> nat \<Rightarrow> nat obj" where
  "bump d k = objSet k (case objGet d k of None \<Rightarrow> 1 | Some n \<Rightarrow> n + 1) d"

text \<open>\<open>if (!o[k]) o[k] = []; o[k].push(idx)\<close>.\<close>

definition pushAt :: "nat list obj \<Rightarrow> nat \<Rightarrow> nat \<Rightarrow> nat list obj" where
  "pushAt d k idx = objSet k (case objGet d k of None \<Rightarrow> [idx] | Some xs \<Rightarrow> xs @ [idx]) d"

text \<open>
  Step 2, the body of \<open>parsedData.matrixMap.forEach\<close>. Reading a property of
  \<open>parsedData.pinMap[side]\<close> or of \<open>charlieTotals[side]\<close> would throw if that object were
  missing; \<open>side\<close> is always a valid shield, for which both exist, and the model leaves
  the state as it is on those branches.
\<close>

definition totalsStep :: "parsedData \<Rightarrow> matrixEntry option \<Rightarrow> locals \<Rightarrow> locals" where
  "totalsStep pd mo L =
     (case mo of
        None \<Rightarrow> L
      | Some m \<Rightarrow>
          (let p = getSideAndPhysCoords pd (Some m) in
           case counts L (side p) of
             None \<Rightarrow> L
           | Some cs \<Rightarrow>
               (let L1 = L\<lparr>counts := (counts L)(side p \<mapsto>
                              \<lparr>rows = bump (rows cs) (physR p), cols = bump (cols cs) (physC p)\<rparr>)\<rparr>
                in case pinMapAt pd (side p) of
                     None \<Rightarrow> L1
                   | Some pMap \<Rightarrow>
                       (case gpios pMap of
                          None \<Rightarrow> L1
                        | Some _ \<Rightarrow>
                            (case charlieTotals L1 (side p) of
                               None \<Rightarrow> L1
                             | Some t \<Rightarrow>
                                 L1\<lparr>charlieTotals := (charlieTotals L1)(side p \<mapsto>
                                       \<lparr>roleIn = bump (roleIn t) (physR p),
                                        roleOut = bump (roleOut t) (physC p)\<rparr>)\<rparr>)))))"

text \<open>Step 3, the body of \<open>selected.forEach\<close>.\<close>

definition groupsStep :: "parsedData \<Rightarrow> nat \<Rightarrow> locals \<Rightarrow> locals" where
  "groupsStep pd idx L =
     (case matrixMapAt pd idx of
        None \<Rightarrow> L
      | Some m \<Rightarrow>
          (let p = getSideAndPhysCoords pd (Some m) in
           case groups L (side p) of
             None \<Rightarrow> L
           | Some g \<Rightarrow>
               (let L1 = L\<lparr>groups := (groups L)(side p \<mapsto>
                              \<lparr>rows = pushAt (rows g) (physR p) idx,
                               cols = pushAt (cols g) (physC p) idx\<rparr>)\<rparr>
                in case pinMapAt pd (side p) of
                     None \<Rightarrow> L1
                   | Some pMap \<Rightarrow>
                       (case gpios pMap of
                          None \<Rightarrow> L1
                        | Some _ \<Rightarrow>
                            (case charlieCounts L1 (side p) of
                               None \<Rightarrow> L1
                             | Some t \<Rightarrow>
                                 L1\<lparr>charlieCounts := (charlieCounts L1)(side p \<mapsto>
                                       \<lparr>roleIn = bump (roleIn t) (physR p),
                                        roleOut = bump (roleOut t) (physC p)\<rparr>)\<rparr>)))))"

definition accumulate :: "parsedData \<Rightarrow> nat list \<Rightarrow> locals" where
  "accumulate pd selected =
     fold (groupsStep pd) selected
       (fold (totalsStep pd) (matrixMap pd)
          (fold initStep (validShields pd) noLocals))"

section \<open>analyzeFailures: the reports\<close>

datatype roleFail = RoleBoth | RoleIn | RoleOut

text \<open>
  A report object, by its \<open>type\<close>. The arguments are the other properties in the order
  of the object literal: \<open>side\<close>, then \<open>pin\<close>, \<open>index\<close>, \<open>row\<close>, \<open>col\<close>, \<open>roleFail\<close>,
  \<open>r\<close>, \<open>c\<close> as present, and \<open>indices\<close> last. The pin of a \<open>row\<close> or \<open>col\<close> report
  may be \<open>undefined\<close> (\<open>None\<close>).
\<close>

datatype report =
    Interrupt string string "nat list"
  | Charlie string nat string roleFail "nat list"
  | DirectGnd string "nat list"
  | Direct string string nat "nat list"
  | Row string nat "string option" "nat list"
  | Col string nat "string option" "nat list"
  | Single string nat nat nat "nat list"

fun rtype :: "report \<Rightarrow> string" where
  "rtype (Interrupt _ _ _) = ''interrupt''"
| "rtype (Charlie _ _ _ _ _) = ''charlie''"
| "rtype (DirectGnd _ _) = ''direct_gnd''"
| "rtype (Direct _ _ _ _) = ''direct''"
| "rtype (Row _ _ _ _) = ''row''"
| "rtype (Col _ _ _ _) = ''col''"
| "rtype (Single _ _ _ _ _) = ''single''"

fun rside :: "report \<Rightarrow> string" where
  "rside (Interrupt s _ _) = s"
| "rside (Charlie s _ _ _ _) = s"
| "rside (DirectGnd s _) = s"
| "rside (Direct s _ _ _) = s"
| "rside (Row s _ _ _) = s"
| "rside (Col s _ _ _) = s"
| "rside (Single s _ _ _ _) = s"

fun rindices :: "report \<Rightarrow> nat list" where
  "rindices (Interrupt _ _ xs) = xs"
| "rindices (Charlie _ _ _ _ xs) = xs"
| "rindices (DirectGnd _ xs) = xs"
| "rindices (Direct _ _ _ xs) = xs"
| "rindices (Row _ _ _ xs) = xs"
| "rindices (Col _ _ _ xs) = xs"
| "rindices (Single _ _ _ _ xs) = xs"

text \<open>The state of step 4: the \<open>report\<close> array and the \<open>coveredIndices\<close> set.\<close>

type_synonym astate = "report list \<times> nat set"

text \<open>
  \<open>parsedData.matrixMap.forEach((m, idx) => { if (!m) return; const pos =
  getSideAndPhysCoords(m); if (P(pos)) out.push(idx); })\<close>, the loop the source uses to
  collect \<open>sideIndices\<close>, the \<open>indices\<close> of a charlie report and \<open>directIndices\<close>.
\<close>

definition keysWhere :: "parsedData \<Rightarrow> (pos \<Rightarrow> bool) \<Rightarrow> nat list" where
  "keysWhere pd P =
     map fst (filter (\<lambda>(idx, mo). case mo of None \<Rightarrow> False
                                    | Some m \<Rightarrow> P (getSideAndPhysCoords pd (Some m)))
                     (enumerate 0 (matrixMap pd)))"

text \<open>\<open>m && getSideAndPhysCoords(m).side === side\<close> for \<open>m = parsedData.matrixMap[idx]\<close>.\<close>

definition onSide :: "parsedData \<Rightarrow> string \<Rightarrow> nat \<Rightarrow> bool" where
  "onSide pd s idx =
     (case matrixMapAt pd idx of None \<Rightarrow> False
      | Some m \<Rightarrow> side (getSideAndPhysCoords pd (Some m)) = s)"

text \<open>
  The thresholds. \<open>count / total > 0.6\<close> is a comparison of doubles in the source; the
  quotient of two key counts is rounded to the nearest double and so is the literal, so
  for every count a keyboard can have (below \<open>2^50\<close>) the comparison agrees with the one
  of the exact quotient, which is what the model computes.
\<close>

definition ratioOver :: "nat \<Rightarrow> nat \<Rightarrow> real \<Rightarrow> bool" where
  "ratioOver n tot threshold = (real n / real tot > threshold)"

definition interruptPass :: "parsedData \<Rightarrow> nat list \<Rightarrow> string \<Rightarrow> shieldPins \<Rightarrow> astate \<Rightarrow> astate" where
  "interruptPass pd selected s pMap st =
     (case interrupt pMap of
        None \<Rightarrow> st
      | Some pin \<Rightarrow>
          if pin = [] then st
          else
            (let sideIndices = keysWhere pd (\<lambda>p. side p = s);
                 sideTotal = length sideIndices;
                 selectedOnSide = length (filter (onSide pd s) selected)
             in if sideTotal > 5 \<and> ratioOver selectedOnSide sideTotal 0.8
                then (fst st @ [Interrupt s pin sideIndices], snd st \<union> set sideIndices)
                else st))"

text \<open>\<open>new Set([...xs])\<close> in enumeration order: the first occurrence of each element.\<close>

definition setFrom :: "'a list \<Rightarrow> 'a list" where
  "setFrom xs = rev (remdups (rev xs))"

text \<open>\<open>o[k] || 0\<close> on an object of counts.\<close>

definition getCount :: "nat obj \<Rightarrow> nat \<Rightarrow> nat" where
  "getCount d k = (case objGet d k of None \<Rightarrow> 0 | Some n \<Rightarrow> n)"

text \<open>\<open>o[k] || 'Unknown'\<close> on an object of pin names.\<close>

definition pinOrUnknown :: "string obj \<Rightarrow> nat \<Rightarrow> string" where
  "pinOrUnknown d k =
     (case objGet d k of None \<Rightarrow> ''Unknown''
      | Some pin \<Rightarrow> if pin = [] then ''Unknown'' else pin)"

definition inFail :: "inOut \<Rightarrow> inOut \<Rightarrow> nat \<Rightarrow> bool" where
  "inFail cc ct pIdx =
     (getCount (roleIn ct) pIdx > 0 \<and>
      ratioOver (getCount (roleIn cc) pIdx) (getCount (roleIn ct) pIdx) 0.6)"

definition outFail :: "inOut \<Rightarrow> inOut \<Rightarrow> nat \<Rightarrow> bool" where
  "outFail cc ct pIdx =
     (getCount (roleOut ct) pIdx > 0 \<and>
      ratioOver (getCount (roleOut cc) pIdx) (getCount (roleOut ct) pIdx) 0.6)"

definition roleOf :: "bool \<Rightarrow> bool \<Rightarrow> roleFail" where
  "roleOf inF outF =
     (if inF \<and> \<not> outF then RoleIn else if \<not> inF \<and> outF then RoleOut else RoleBoth)"

definition roleMatch :: "roleFail \<Rightarrow> nat \<Rightarrow> pos \<Rightarrow> bool" where
  "roleMatch rf pIdx p =
     (if rf = RoleIn \<and> physR p = pIdx then True
      else if rf = RoleOut \<and> physC p = pIdx then True
      else if rf = RoleBoth \<and> (physR p = pIdx \<or> physC p = pIdx) then True
      else False)"

text \<open>The body of \<open>allIndices.forEach\<close> in the charlieplex analysis.\<close>

definition charlieStep ::
  "parsedData \<Rightarrow> nat list \<Rightarrow> string \<Rightarrow> string obj \<Rightarrow> inOut \<Rightarrow> inOut \<Rightarrow> nat \<Rightarrow> astate \<Rightarrow> astate" where
  "charlieStep pd selected s gp cc ct pIdx st =
     (if inFail cc ct pIdx \<or> outFail cc ct pIdx then
        (let rf = roleOf (inFail cc ct pIdx) (outFail cc ct pIdx);
             indices = keysWhere pd (\<lambda>p. side p = s \<and> roleMatch rf pIdx p);
             involvedSelected = filter (\<lambda>idx. idx \<in> set selected) indices
         in (fst st @ [Charlie s pIdx (pinOrUnknown gp pIdx) rf involvedSelected],
             snd st \<union> set involvedSelected))
      else st)"

definition charliePass ::
  "parsedData \<Rightarrow> nat list \<Rightarrow> locals \<Rightarrow> string \<Rightarrow> string obj \<Rightarrow> astate \<Rightarrow> astate" where
  "charliePass pd selected L s gp st =
     (case charlieTotals L s of
        None \<Rightarrow> st
      | Some ct \<Rightarrow>
          (case charlieCounts L s of
             None \<Rightarrow> st
           | Some cc \<Rightarrow>
               fold (charlieStep pd selected s gp cc ct)
                    (setFrom (objKeys (roleIn ct) @ objKeys (roleOut ct))) st))"

text \<open>The direct GPIO analysis.\<close>

definition directStep :: "parsedData \<Rightarrow> string \<Rightarrow> string obj \<Rightarrow> nat \<Rightarrow> astate \<Rightarrow> astate" where
  "directStep pd s d idx st =
     (let m = matrixMapAt pd idx;
          p = getSideAndPhysCoords pd m;
          pin = pinOrUnknown d (physC p)
      in (fst st @ [Direct s pin idx [idx]], insert idx (snd st)))"

definition directPass ::
  "parsedData \<Rightarrow> nat list \<Rightarrow> string \<Rightarrow> string obj \<Rightarrow> astate \<Rightarrow> astate" where
  "directPass pd selected s d st =
     (let directIndices = keysWhere pd (\<lambda>p. side p = s \<and> objGet d (physC p) \<noteq> None);
          selectedDirectOnSide = filter (\<lambda>idx. idx \<in> set selected) directIndices
      in if length directIndices > 2 \<and>
            ratioOver (length selectedDirectOnSide) (length directIndices) 0.8
         then (fst st @ [DirectGnd s directIndices], snd st \<union> set directIndices)
         else fold (directStep pd s d) selectedDirectOnSide st)"

text \<open>
  The standard matrix analysis: one \<open>for ... in\<close> over the keys of
  \<open>groups[side].rows\<close>, one over those of \<open>groups[side].cols\<close>. \<open>total\<close> is
  \<open>undefined\<close> when the count object has no such key, and \<open>undefined > 0\<close> is false.
\<close>

definition lineFails :: "nat list \<Rightarrow> nat option \<Rightarrow> bool" where
  "lineFails idxs tot =
     (case tot of None \<Rightarrow> False
      | Some t \<Rightarrow> t > 0 \<and> ratioOver (length idxs) t 0.6)"

definition linePin :: "string obj option \<Rightarrow> nat \<Rightarrow> string option" where
  "linePin po k = (case po of None \<Rightarrow> Some ''Unknown'' | Some d \<Rightarrow> objGet d k)"

definition rowStep ::
  "string \<Rightarrow> shieldPins \<Rightarrow> nat list rowsCols \<Rightarrow> nat rowsCols \<Rightarrow> nat \<Rightarrow> astate \<Rightarrow> astate" where
  "rowStep s pMap g cnt k st =
     (case objGet (rows g) k of
        None \<Rightarrow> st
      | Some idxs \<Rightarrow>
          if lineFails idxs (objGet (rows cnt) k)
          then (fst st @ [Row s k (linePin (row pMap) k) idxs], snd st \<union> set idxs)
          else st)"

definition colStep ::
  "string \<Rightarrow> shieldPins \<Rightarrow> nat list rowsCols \<Rightarrow> nat rowsCols \<Rightarrow> nat \<Rightarrow> astate \<Rightarrow> astate" where
  "colStep s pMap g cnt k st =
     (case objGet (cols g) k of
        None \<Rightarrow> st
      | Some idxs \<Rightarrow>
          if lineFails idxs (objGet (cols cnt) k)
          then (fst st @ [Col s k (linePin (col pMap) k) idxs], snd st \<union> set idxs)
          else st)"

definition standardPass :: "locals \<Rightarrow> string \<Rightarrow> shieldPins \<Rightarrow> astate \<Rightarrow> astate" where
  "standardPass L s pMap st =
     (case groups L s of
        None \<Rightarrow> st
      | Some g \<Rightarrow>
          (case counts L s of
             None \<Rightarrow> st
           | Some cnt \<Rightarrow>
               fold (colStep s pMap g cnt) (objKeys (cols g))
                 (fold (rowStep s pMap g cnt) (objKeys (rows g)) st)))"

text \<open>The single key failures: the last \<open>selected.forEach\<close> of a shield's pass.\<close>

definition singleStep :: "parsedData \<Rightarrow> string \<Rightarrow> nat \<Rightarrow> astate \<Rightarrow> astate" where
  "singleStep pd s idx st =
     (if idx \<in> snd st then st
      else
        (case matrixMapAt pd idx of
           None \<Rightarrow> st
         | Some m \<Rightarrow>
             if side (getSideAndPhysCoords pd (Some m)) = s
             then (fst st @ [Single s (r m) (c m) idx [idx]], snd st)
             else st))"

definition singlesPass :: "parsedData \<Rightarrow> nat list \<Rightarrow> string \<Rightarrow> astate \<Rightarrow> astate" where
  "singlesPass pd selected s st = fold (singleStep pd s) selected st"

text \<open>
  The wiring-mode-specific part of a shield's pass: \<open>if (pMap.gpios) ... else if
  (pMap.direct) ... else ...\<close>; an object is truthy whenever it is there.
\<close>

definition modePass ::
  "parsedData \<Rightarrow> nat list \<Rightarrow> locals \<Rightarrow> string \<Rightarrow> shieldPins \<Rightarrow> astate \<Rightarrow> astate" where
  "modePass pd selected L s pMap st =
     (case gpios pMap of
        Some gp \<Rightarrow> charliePass pd selected L s gp st
      | None \<Rightarrow>
          (case direct pMap of
             Some d \<Rightarrow> directPass pd selected s d st
           | None \<Rightarrow> standardPass L s pMap st))"

text \<open>Step 4, the body of \<open>validShields.forEach(side => ...)\<close>.\<close>

definition analyzeSide :: "parsedData \<Rightarrow> nat list \<Rightarrow> locals \<Rightarrow> string \<Rightarrow> astate \<Rightarrow> astate" where
  "analyzeSide pd selected L s st =
     (case pinMapAt pd s of
        None \<Rightarrow> st
      | Some pMap \<Rightarrow>
          singlesPass pd selected s
            (modePass pd selected L s pMap
               (interruptPass pd selected s pMap st)))"

text \<open>
  \<open>analyzeFailures\<close>. It reads the globals \<open>parsedData\<close> and \<open>state.selectedIndices\<close>
  (\<open>selected\<close> is \<open>Array.from\<close> of that set: its elements in insertion order, each
  once) and returns the \<open>report\<close> array.
\<close>

definition analyzeFailures :: "parsedData \<Rightarrow> nat list \<Rightarrow> report list" where
  "analyzeFailures pd selected =
     (if length (validShields pd) = 0 then []
      else fst (fold (analyzeSide pd selected (accumulate pd selected))
                     (validShields pd) ([], {})))"

text \<open>
  The call as a run over a store, statement by statement. The store has the two globals
  the function reads, \<open>parsedData\<close> and \<open>state.selectedIndices\<close>, and a slot for each
  variable the function declares: \<open>selected\<close>, \<open>report\<close>, \<open>validShields\<close>, the four
  objects \<open>groups\<close>, \<open>counts\<close>, \<open>charlieCounts\<close>, \<open>charlieTotals\<close>, and
  \<open>coveredIndices\<close>. The slots outlive the call, so that what an earlier call left in
  them is there when the next one starts: that is the most that could be retained. Every
  assignment of the source is an update of one slot; the source has no assignment to a
  global. The result is the \<open>report\<close> returned, with the store the call leaves.
\<close>

record store =
  g_parsedData :: parsedData
  g_selectedIndices :: "nat list"
  l_selected :: "nat list"
  l_report :: "report list"
  l_validShields :: "string list"
  l_objects :: locals
  l_coveredIndices :: "nat set"

text \<open>\<open>const selected = Array.from(state.selectedIndices); const report = [];\<close>\<close>

definition runSelected :: "store \<Rightarrow> store" where
  "runSelected \<sigma> = \<sigma>\<lparr>l_selected := g_selectedIndices \<sigma>, l_report := []\<rparr>"

text \<open>\<open>const validShields = Object.keys(parsedData.pinMap).filter(...)\<close>\<close>

definition runValidShields :: "store \<Rightarrow> store" where
  "runValidShields \<sigma> = \<sigma>\<lparr>l_validShields := validShields (g_parsedData \<sigma>)\<rparr>"

text \<open>
  \<open>const groups = {}; const counts = {}; const charlieCounts = {}; const charlieTotals =
  {};\<close> and the three loops that fill them.
\<close>

definition runAccumulate :: "store \<Rightarrow> store" where
  "runAccumulate \<sigma> =
     (let \<sigma>1 = \<sigma>\<lparr>l_objects := noLocals\<rparr>;
          \<sigma>2 = \<sigma>1\<lparr>l_objects := fold initStep (l_validShields \<sigma>1) (l_objects \<sigma>1)\<rparr>;
          \<sigma>3 = \<sigma>2\<lparr>l_objects := fold (totalsStep (g_parsedData \<sigma>2))
                                      (matrixMap (g_parsedData \<sigma>2)) (l_objects \<sigma>2)\<rparr>
      in \<sigma>3\<lparr>l_objects := fold (groupsStep (g_parsedData \<sigma>3)) (l_selected \<sigma>3) (l_objects \<sigma>3)\<rparr>)"

text \<open>\<open>const coveredIndices = new Set();\<close> and the loop over the valid shields.\<close>

definition runAnalyze :: "store \<Rightarrow> store" where
  "runAnalyze \<sigma> =
     (let \<sigma>1 = \<sigma>\<lparr>l_coveredIndices := {}\<rparr>;
          st = fold (analyzeSide (g_parsedData \<sigma>1) (l_selected \<sigma>1) (l_objects \<sigma>1))
                    (l_validShields \<sigma>1) (l_report \<sigma>1, l_coveredIndices \<sigma>1)
      in \<sigma>1\<lparr>l_report := fst st, l_coveredIndices := snd st\<rparr>)"

definition analyzeFailures_run :: "store \<Rightarrow> report list \<times> store" where
  "analyzeFailures_run \<sigma> =
     (let \<sigma>1 = runValidShields (runSelected \<sigma>)
      in if length (l_validShields \<sigma>1) = 0 then ([], \<sigma>1)
         else (let \<sigma>2 = runAnalyze (runAccumulate \<sigma>1) in (l_report \<sigma>2, \<sigma>2)))"

section \<open>ZMKParser: the pin configuration pass\<close>

text \<open>
  File contents are strings of code units below \<open>0x100\<close>, the characters this type has.
  \<open>startsWith\<close> and \<open>strIncludes\<close> are the string methods \<open>startsWith\<close> and
  \<open>includes\<close>; \<open>isSpace\<close> is the class \<open>\s\<close> on those code units: tab, line feed,
  vertical tab, form feed, carriage return, space and the no-break space \<open>U+00A0\<close> (the
  other members of \<open>\s\<close> lie above \<open>0xFF\<close>).
\<close>

fun startsWith :: "string \<Rightarrow> string \<Rightarrow> bool" where
  "startsWith s [] = True"
| "startsWith [] (p # ps) = False"
| "startsWith (x # xs) (p # ps) = (x = p \<and> startsWith xs ps)"

fun strIncludes :: "string \<Rightarrow> string \<Rightarrow> bool" where
  "strIncludes [] sub = (sub = [])"
| "strIncludes (x # xs) sub = (startsWith (x # xs) sub \<or> strIncludes xs sub)"

definition isSpace :: "char \<Rightarrow> bool" where
  "isSpace ch =
     (ch \<in> set [CHR 0x09, CHR 0x0A, CHR 0x0B, CHR 0x0C, CHR 0x0D, CHR 0x20, CHR 0xA0])"

text \<open>
  \<open>/diode-direction\s*=\s*"([^"]+)"/.exec(content)\<close>: \<open>diodeAt\<close> is the match that
  starts at the head of the string, \<open>diodeMatch\<close> the leftmost one; the result is the
  group \<open>match[1]\<close>. Each greedy part is followed by a character it cannot contain, so
  there is nothing to backtrack into.
\<close>

definition diodeAt :: "string \<Rightarrow> string option" where
  "diodeAt s =
     (if startsWith s ''diode-direction'' then
        (case dropWhile isSpace (drop (length ''diode-direction'') s) of
           [] \<Rightarrow> None
         | eq # rest \<Rightarrow>
             if eq = CHR ''='' then
               (case dropWhile isSpace rest of
                  [] \<Rightarrow> None
                | q # body \<Rightarrow>
                    if q = CHR 0x22 then
                      (let cap = takeWhile (\<lambda>ch. ch \<noteq> CHR 0x22) body;
                           after = dropWhile (\<lambda>ch. ch \<noteq> CHR 0x22) body
                       in if cap \<noteq> [] \<and> after \<noteq> [] then Some cap else None)
                    else None)
             else None)
      else None)"

fun diodeMatch :: "string \<Rightarrow> string option" where
  "diodeMatch [] = None"
| "diodeMatch (x # xs) =
     (case diodeAt (x # xs) of Some d \<Rightarrow> Some d | None \<Rightarrow> diodeMatch xs)"

text \<open>
  The prefix \<open>(?:^|[\s;])propName\s*=\<close> shared by the test for \<open>gpios\<close> and by
  \<open>extractGpioList\<close>. \<open>propAt\<close> matches \<open>propName\s*=\<close> at the head of the string and
  returns what follows; \<open>propMatches\<close> collects these for every place where the name may
  start (the start of the text, or after a white space or a semicolon), leftmost first.
\<close>

definition propAt :: "string \<Rightarrow> string \<Rightarrow> string option" where
  "propAt propName s =
     (if startsWith s propName then
        (case dropWhile isSpace (drop (length propName) s) of
           [] \<Rightarrow> None
         | eq # rest \<Rightarrow> if eq = CHR ''='' then Some rest else None)
      else None)"

fun propMatches :: "string \<Rightarrow> bool \<Rightarrow> string \<Rightarrow> string list" where
  "propMatches propName ok [] = []"
| "propMatches propName ok (x # xs) =
     (case (if ok then propAt propName (x # xs) else None) of
        None \<Rightarrow> []
      | Some rest \<Rightarrow> [rest])
     @ propMatches propName (isSpace x \<or> x = CHR '';'') xs"

text \<open>\<open>/(?:^|[\s;])gpios\s*=/.test(content)\<close>.\<close>

definition hasGpiosProp :: "string \<Rightarrow> bool" where
  "hasGpiosProp content = (propMatches ''gpios'' True content \<noteq> [])"

text \<open>
  The rest of the pattern of \<open>extractGpioList\<close>, \<open>[\s\S]*?<([\s\S]*?);\<close>: the text
  between the first \<open><\<close> and the first semicolon after it. Without such a semicolon
  no later \<open><\<close> has one either, and the match fails at this place.
\<close>

definition captureAfter :: "string \<Rightarrow> string option" where
  "captureAfter rest =
     (case dropWhile (\<lambda>ch. ch \<noteq> CHR ''<'') rest of
        [] \<Rightarrow> None
      | lt # inner \<Rightarrow>
          if dropWhile (\<lambda>ch. ch \<noteq> CHR '';'') inner = [] then None
          else Some (takeWhile (\<lambda>ch. ch \<noteq> CHR '';'') inner))"

fun firstCapture :: "string list \<Rightarrow> string option" where
  "firstCapture [] = None"
| "firstCapture (rest # others) =
     (case captureAfter rest of Some inner \<Rightarrow> Some inner | None \<Rightarrow> firstCapture others)"

text \<open>\<open>inner.split(/[\s,<>]+/).filter(t => t.length > 0)\<close>.\<close>

definition isDelim :: "char \<Rightarrow> bool" where
  "isDelim ch = (isSpace ch \<or> ch = CHR '','' \<or> ch = CHR ''<'' \<or> ch = CHR ''>'')"

fun tokensOf :: "string \<Rightarrow> string \<Rightarrow> string list" where
  "tokensOf cur [] = (if cur = [] then [] else [cur])"
| "tokensOf cur (x # xs) =
     (if isDelim x then (if cur = [] then [] else [cur]) @ tokensOf [] xs
      else tokensOf (cur @ [x]) xs)"

text \<open>
  The loop over the tokens: a token that starts with \<open>&\<close> gives the pin
  \<open>`${phandle} ${pinNum}`.replace('&', '')\<close>, where \<open>pinNum\<close> is the next token
  (\<open>undefined\<close> after the last one).
\<close>

fun pinsOf :: "string list \<Rightarrow> string list" where
  "pinsOf [] = []"
| "pinsOf (t # ts) =
     (if startsWith t ''&''
      then [tl t @ '' '' @ (case ts of [] \<Rightarrow> ''undefined'' | pinNum # _ \<Rightarrow> pinNum)]
      else [])
     @ pinsOf ts"

definition extractGpioList :: "string \<Rightarrow> string \<Rightarrow> string obj" where
  "extractGpioList content propName =
     (case firstCapture (propMatches propName True content) of
        None \<Rightarrow> []
      | Some inner \<Rightarrow> enumerate 0 (pinsOf (tokensOf [] inner)))"

text \<open>\<open>Object.assign(target, source)\<close> on objects with index keys.\<close>

definition objAssign :: "'v obj \<Rightarrow> 'v obj \<Rightarrow> 'v obj" where
  "objAssign target source = fold (\<lambda>e d. objSet (fst e) (snd e) d) source target"

text \<open>
  The order in which \<open>Object.keys\<close> and \<open>Object.entries\<close> enumerate the properties of
  \<open>pinMap\<close>: names that are array indices (a decimal numeral without a leading
  zero, below \<open>2^32 - 1\<close>) first, in ascending numeric order, then all other names in the order in
  which they were created. \<open>pinMapSet\<close> is the assignment \<open>pinMap[s] = p\<close>: an existing
  property keeps its place, a new one is put where that order has it.
\<close>

definition digitValue :: "char \<Rightarrow> int option" where
  "digitValue ch =
     map_of [(CHR ''0'', 0), (CHR ''1'', 1), (CHR ''2'', 2), (CHR ''3'', 3), (CHR ''4'', 4),
             (CHR ''5'', 5), (CHR ''6'', 6), (CHR ''7'', 7), (CHR ''8'', 8), (CHR ''9'', 9)] ch"

fun decimal :: "int \<Rightarrow> string \<Rightarrow> int option" where
  "decimal n [] = Some n"
| "decimal n (ch # rest) =
     (case digitValue ch of None \<Rightarrow> None | Some v \<Rightarrow> decimal (10 * n + v) rest)"

definition arrayIndex :: "string \<Rightarrow> int option" where
  "arrayIndex s =
     (case s of
        [] \<Rightarrow> None
      | ch # rest \<Rightarrow>
          if ch = CHR ''0'' \<and> rest \<noteq> [] then None
          else (case decimal 0 s of
                  None \<Rightarrow> None
                | Some n \<Rightarrow> if n < 4294967295 then Some n else None))"

definition keyBefore :: "string \<Rightarrow> string \<Rightarrow> bool" where
  "keyBefore s s' =
     (case arrayIndex s of
        None \<Rightarrow> False
      | Some n \<Rightarrow> (case arrayIndex s' of None \<Rightarrow> True | Some n' \<Rightarrow> n < n'))"

fun insertKey :: "string \<Rightarrow> shieldPins \<Rightarrow> (string \<times> shieldPins) list \<Rightarrow> (string \<times> shieldPins) list" where
  "insertKey s p [] = [(s, p)]"
| "insertKey s p ((s', p') # ps) =
     (if keyBefore s s' then (s, p) # (s', p') # ps else (s', p') # insertKey s p ps)"

definition pinMapSet :: "string \<Rightarrow> shieldPins \<Rightarrow> (string \<times> shieldPins) list \<Rightarrow> (string \<times> shieldPins) list" where
  "pinMapSet s p ps =
     (if s \<in> set (map fst ps) then map (\<lambda>e. if fst e = s then (s, p) else e) ps
      else insertKey s p ps)"

text \<open>\<open>updShield\<close> changes the entry of a name that is there.\<close>

definition updShield :: "string \<Rightarrow> (shieldPins \<Rightarrow> shieldPins) \<Rightarrow> parsedData \<Rightarrow> parsedData" where
  "updShield s f res =
     (case pinMapAt res s of
        None \<Rightarrow> res
      | Some p \<Rightarrow> res\<lparr>pinMap := pinMapSet s (f p) (pinMap res)\<rparr>)"

text \<open>\<open>if (!this.result.pinMap[s]) this.result.pinMap[s] = { row: {}, col: {} };\<close>\<close>

definition ensureShield :: "string \<Rightarrow> parsedData \<Rightarrow> parsedData" where
  "ensureShield s res =
     (case pinMapAt res s of
        None \<Rightarrow> res\<lparr>pinMap := pinMapSet s
                  \<lparr>row = Some [], col = Some [], gpios = None, direct = None,
                   interrupt = None, colOffset = None, rowOffset = None\<rparr> (pinMap res)\<rparr>
      | Some _ \<Rightarrow> res)"

text \<open>
  The three \<open>targetSides.forEach\<close> bodies. Every entry of the parser's \<open>pinMap\<close> is
  created with \<open>row\<close> and \<open>col\<close>, so \<open>Object.assign\<close> has a target; the model leaves a
  missing one as it is.
\<close>

definition standardApply :: "string obj \<Rightarrow> string obj \<Rightarrow> string \<Rightarrow> parsedData \<Rightarrow> parsedData" where
  "standardApply rowGpios colGpios s res =
     (let res1 = ensureShield s res;
          res2 = (if length (objKeys rowGpios) > 0
                  then updShield s (\<lambda>p. p\<lparr>row := map_option (\<lambda>d. objAssign d rowGpios) (row p)\<rparr>) res1
                  else res1)
      in if length (objKeys colGpios) > 0
         then updShield s (\<lambda>p. p\<lparr>col := map_option (\<lambda>d. objAssign d colGpios) (col p)\<rparr>) res2
         else res2)"

definition charlieApply :: "string obj \<Rightarrow> string obj \<Rightarrow> string \<Rightarrow> parsedData \<Rightarrow> parsedData" where
  "charlieApply gp intGpios s res =
     (let res1 = ensureShield s res;
          res2 = (if length (objKeys gp) > 0
                  then (updShield s (\<lambda>p. p\<lparr>gpios :=
                            Some (objAssign (case gpios p of None \<Rightarrow> [] | Some d \<Rightarrow> d) gp)\<rparr>) res1)
                       \<lparr>diodeDirection := ''col2row''\<rparr>
                  else res1)
      in case intGpios of
           [] \<Rightarrow> res2
         | e # _ \<Rightarrow> updShield s (\<lambda>p. p\<lparr>interrupt := Some (snd e)\<rparr>) res2)"

definition directApply :: "string obj \<Rightarrow> string \<Rightarrow> parsedData \<Rightarrow> parsedData" where
  "directApply directGpios s res =
     (let res1 = ensureShield s res
      in if length (objKeys directGpios) > 0
         then (updShield s (\<lambda>p. p\<lparr>direct :=
                   Some (objAssign (case direct p of None \<Rightarrow> [] | Some d \<Rightarrow> d) directGpios)\<rparr>) res1)
              \<lparr>diodeDirection := ''row2col''\<rparr>
         else res1)"

definition isCharlieMode :: "string \<Rightarrow> bool" where
  "isCharlieMode content =
     ((strIncludes content ''compatible'' \<and> strIncludes content ''zmk,kscan-gpio-charlieplex'') \<or>
      (hasGpiosProp content \<and> \<not> strIncludes content ''row-gpios'' \<and> \<not> strIncludes content ''col-gpios''))"

definition isDirectMode :: "string \<Rightarrow> bool" where
  "isDirectMode content =
     ((strIncludes content ''compatible'' \<and> strIncludes content ''zmk,kscan-gpio-direct'') \<or>
      (strIncludes content ''input-gpios'' \<and> \<not> strIncludes content ''row-gpios'' \<and>
       \<not> strIncludes content ''col-gpios''))"

text \<open>The shield a file belongs to: the first shield whose name the file name includes.\<close>

definition sideOfFile :: "string list \<Rightarrow> string \<Rightarrow> string" where
  "sideOfFile shields filename =
     (case filter (strIncludes filename) shields of [] \<Rightarrow> ''common'' | shield # _ \<Rightarrow> shield)"

text \<open>The body of the loop of \<open>findAndParsePinConfig\<close>, for one entry of \<open>rawFiles\<close>.\<close>

definition pinConfigStep :: "string list \<Rightarrow> string \<times> string \<Rightarrow> parsedData \<Rightarrow> parsedData" where
  "pinConfigStep shields file res =
     (let filename = fst file; content = snd file;
          res0 = (case diodeMatch content of
                    None \<Rightarrow> res
                  | Some d \<Rightarrow> res\<lparr>diodeDirection := d\<rparr>);
          s = sideOfFile shields filename;
          targetSides = (if s = ''common'' then shields else [s])
      in if length targetSides = 0 \<and> s = ''common'' then res0
         else
           (let res1 = (if strIncludes content ''row-gpios'' \<or> strIncludes content ''col-gpios''
                        then fold (standardApply (extractGpioList content ''row-gpios'')
                                                 (extractGpioList content ''col-gpios''))
                                  targetSides res0
                        else res0);
                res2 = (if isCharlieMode content
                        then fold (charlieApply (extractGpioList content ''gpios'')
                                                (extractGpioList content ''interrupt-gpios''))
                                  targetSides res1
                        else res1)
            in if isDirectMode content
               then fold (directApply (extractGpioList content ''input-gpios'')) targetSides res2
               else res2))"

definition findAndParsePinConfig ::
  "string list \<Rightarrow> (string \<times> string) list \<Rightarrow> parsedData \<Rightarrow> parsedData" where
  "findAndParsePinConfig shields rawFiles res = fold (pinConfigStep shields) rawFiles res"


section \<open>Notions used to state the properties\<close>

text \<open>A shield's offsets as \<open>getSideAndPhysCoords\<close> reads them (\<open>|| 0\<close>).\<close>

definition shieldColOffset :: "parsedData \<Rightarrow> string \<Rightarrow> nat" where
  "shieldColOffset pd s = (case pinMapAt pd s of None \<Rightarrow> 0 | Some p \<Rightarrow> orZero (colOffset p))"

definition shieldRowOffset :: "parsedData \<Rightarrow> string \<Rightarrow> nat" where
  "shieldRowOffset pd s = (case pinMapAt pd s of None \<Rightarrow> 0 | Some p \<Rightarrow> orZero (rowOffset p))"

text \<open>
  The specification's words: a shield qualifies for a key when both its offsets are at
  most the key's logical column and row; its offset sum ranks it.
\<close>

definition qualifies :: "parsedData \<Rightarrow> matrixEntry \<Rightarrow> string \<Rightarrow> bool" where
  "qualifies pd m s = (shieldColOffset pd s \<le> c m \<and> shieldRowOffset pd s \<le> r m)"

definition offsetSum :: "parsedData \<Rightarrow> string \<Rightarrow> nat" where
  "offsetSum pd s = shieldColOffset pd s + shieldRowOffset pd s"

text \<open>
  The key \<open>idx\<close> has a matrix entry, and the owner and local coordinates that entry
  resolves to satisfy \<open>P\<close>.
\<close>

definition keyAt :: "parsedData \<Rightarrow> (pos \<Rightarrow> bool) \<Rightarrow> nat \<Rightarrow> bool" where
  "keyAt pd P idx =
     (case matrixMapAt pd idx of None \<Rightarrow> False
      | Some m \<Rightarrow> P (getSideAndPhysCoords pd (Some m)))"

text \<open>The union of the \<open>indices\<close> of all reports other than \<open>single\<close> ones.\<close>

definition coveredBy :: "report list \<Rightarrow> nat set" where
  "coveredBy reps = (\<Union>rep \<in> {rep \<in> set reps. rtype rep \<noteq> ''single''}. set (rindices rep))"

text \<open>
  The matrix entry is there, and the owner and local coordinates it resolves to satisfy
  \<open>P\<close>.
\<close>

definition entryAt :: "parsedData \<Rightarrow> (pos \<Rightarrow> bool) \<Rightarrow> matrixEntry option \<Rightarrow> bool" where
  "entryAt pd P mo = (case mo of None \<Rightarrow> False | Some m \<Rightarrow> P (getSideAndPhysCoords pd (Some m)))"

text \<open>The shield has a \<open>gpios\<close> object: \<open>parsedData.pinMap[side].gpios\<close> is truthy.\<close>

definition hasGpios :: "parsedData \<Rightarrow> string \<Rightarrow> bool" where
  "hasGpios pd s = (case pinMapAt pd s of None \<Rightarrow> False | Some p \<Rightarrow> gpios p \<noteq> None)"

text \<open>\<open>o[k]\<close> on an object of index lists, \<open>[]\<close> when the key is missing.\<close>

definition getList :: "nat list obj \<Rightarrow> nat \<Rightarrow> nat list" where
  "getList d k = (case objGet d k of None \<Rightarrow> [] | Some xs \<Rightarrow> xs)"

text \<open>
  A pass that only appends reports, whatever the state is, and marks as covered the
  indices of what it appends.
\<close>

definition emitter :: "(astate \<Rightarrow> astate) \<Rightarrow> bool" where
  "emitter f = (\<forall>st. f st = (fst st @ fst (f ([], {})), snd st \<union> coveredBy (fst (f ([], {})))))"

text \<open>
  The \<open>single\<close> report that the key \<open>idx\<close> gives in the pass of the shield \<open>s\<close> when
  \<open>C\<close> is covered.
\<close>

definition singleOut :: "parsedData \<Rightarrow> string \<Rightarrow> nat set \<Rightarrow> nat \<Rightarrow> report list" where
  "singleOut pd s C idx =
     (if idx \<in> C then []
      else (case matrixMapAt pd idx of None \<Rightarrow> []
            | Some m \<Rightarrow> if side (getSideAndPhysCoords pd (Some m)) = s
                        then [Single s (r m) (c m) idx [idx]] else []))"

text \<open>
  The reports of a shield's pass that do not depend on what is covered: those of the
  interrupt check and of the wiring-mode-specific analysis, on an empty state.
\<close>

definition lineReports :: "parsedData \<Rightarrow> nat list \<Rightarrow> locals \<Rightarrow> string \<Rightarrow> report list" where
  "lineReports pd selected L s =
     (case pinMapAt pd s of None \<Rightarrow> []
      | Some pMap \<Rightarrow> fst (interruptPass pd selected s pMap ([], {})) @
                     fst (modePass pd selected L s pMap ([], {})))"

text \<open>
  The specification's words: among the keys of the matrix map that satisfy \<open>P\<close> (the
  keys of a row, of a column, of a shield) there is at least one, and the selected ones
  are more than \<open>threshold\<close> of them.
\<close>

definition failRatioOver :: "parsedData \<Rightarrow> nat list \<Rightarrow> (pos \<Rightarrow> bool) \<Rightarrow> real \<Rightarrow> bool" where
  "failRatioOver pd selected P threshold =
     (length (keysWhere pd P) > 0 \<and>
      real (length (filter (keyAt pd P) selected)) / real (length (keysWhere pd P)) > threshold)"




text \<open>No shield of the topology has a \<open>gpios\<close> object without pins.\<close>

definition gpiosNonEmpty :: "parsedData \<Rightarrow> bool" where
  "gpiosNonEmpty res = list_all (\<lambda>e. gpios (snd e) \<noteq> Some []) (pinMap res)"

section \<open>Example topologies\<close>

text \<open>\<open>{ row: {}, col: {} }\<close>, the entry the parser creates for a shield.\<close>

definition emptyPins :: shieldPins where
  "emptyPins = \<lparr>row = Some [], col = Some [], gpios = None, direct = None,
                 interrupt = None, colOffset = None, rowOffset = None\<rparr>"

text \<open>\<open>{}\<close>, the entries of the initial \<open>pinMap\<close>.\<close>

definition noPins :: shieldPins where
  "noPins = \<lparr>row = None, col = None, gpios = None, direct = None,
              interrupt = None, colOffset = None, rowOffset = None\<rparr>"

definition rc :: "nat \<Rightarrow> nat \<Rightarrow> matrixEntry option" where
  "rc a b = Some \<lparr>r = a, c = b\<rparr>"

text \<open>A split keyboard: the right half starts at column 6.\<close>

definition exSplit :: parsedData where
  "exSplit =
     \<lparr>matrixMap = [rc 2 8, rc 0 0, rc 2 5],
      pinMap = [(''zaru_l'', emptyPins\<lparr>row := Some [(0, ''xiao_d 0'')]\<rparr>),
                (''zaru_r'', emptyPins\<lparr>row := Some [(0, ''xiao_d 1'')], colOffset := Some 6\<rparr>)],
      diodeDirection = ''col2row''\<rparr>"

text \<open>The same keyboard when only the right half has pins.\<close>

definition exRightOnly :: parsedData where
  "exRightOnly =
     \<lparr>matrixMap = [rc 0 0, rc 2 8],
      pinMap = [(''zaru_l'', emptyPins),
                (''zaru_r'', emptyPins\<lparr>row := Some [(0, ''xiao_d 1'')], colOffset := Some 6\<rparr>)],
      diodeDirection = ''col2row''\<rparr>"

text \<open>The topology before any file is parsed.\<close>

definition exInitial :: parsedData where
  "exInitial =
     \<lparr>matrixMap = [rc 0 0, rc 0 1],
      pinMap = [(''left'', noPins), (''right'', noPins)],
      diodeDirection = ''col2row''\<rparr>"

text \<open>A standard matrix: two rows, four columns, six keys.\<close>

definition stdPins :: shieldPins where
  "stdPins =
     \<lparr>row = Some [(0, ''gpio0 1''), (1, ''gpio0 2'')],
      col = Some [(0, ''gpio0 3''), (1, ''gpio0 4''), (2, ''gpio0 5''), (3, ''gpio0 6'')],
      gpios = None, direct = None, interrupt = None, colOffset = None, rowOffset = None\<rparr>"

definition exStd :: parsedData where
  "exStd =
     \<lparr>matrixMap = [rc 0 0, rc 0 1, rc 0 2, rc 0 3, rc 1 0, rc 1 1],
      pinMap = [(''kb'', stdPins)],
      diodeDirection = ''col2row''\<rparr>"

text \<open>
  A charlieplex shield with an interrupt pin: ordinal 0 is the row of the keys 0, 1, 2
  and the column of the keys 3, 4.
\<close>

definition charliePins :: shieldPins where
  "charliePins =
     \<lparr>row = Some [], col = Some [],
      gpios = Some [(0, ''xiao_d 0''), (1, ''xiao_d 1''), (2, ''xiao_d 2''), (3, ''xiao_d 3'')],
      direct = None, interrupt = Some ''xiao_d 9'', colOffset = None, rowOffset = None\<rparr>"

definition exCharlie :: parsedData where
  "exCharlie =
     \<lparr>matrixMap = [rc 0 1, rc 0 2, rc 0 3, rc 1 0, rc 2 0, rc 1 2],
      pinMap = [(''kb'', charliePins)],
      diodeDirection = ''col2row''\<rparr>"

text \<open>A direct-wired shield with five keys.\<close>

definition directPins :: shieldPins where
  "directPins =
     \<lparr>row = Some [], col = Some [], gpios = None,
      direct = Some [(0, ''xiao_d 0''), (1, ''xiao_d 1''), (2, ''xiao_d 2''),
                     (3, ''xiao_d 3''), (4, ''xiao_d 4'')],
      interrupt = None, colOffset = None, rowOffset = None\<rparr>"

definition exDirect :: parsedData where
  "exDirect =
     \<lparr>matrixMap = [rc 0 0, rc 0 1, rc 0 2, rc 0 3, rc 0 4],
      pinMap = [(''kb'', directPins)],
      diodeDirection = ''row2col''\<rparr>"

text \<open>A direct-wired shield with two keys in local column 0, at rows 0 and 1.\<close>

definition exDirectShared :: parsedData where
  "exDirectShared =
     \<lparr>matrixMap = [rc 0 0, rc 1 0],
      pinMap = [(''kb'', directPins)],
      diodeDirection = ''row2col''\<rparr>"

text \<open>A shield that has all four pin lists.\<close>

definition mixedPins :: shieldPins where
  "mixedPins =
     \<lparr>row = Some [(0, ''gpio0 1'')], col = Some [(0, ''gpio0 2'')],
      gpios = Some [(0, ''xiao_d 0''), (1, ''xiao_d 1'')],
      direct = Some [(0, ''xiao_d 2''), (1, ''xiao_d 3'')],
      interrupt = None, colOffset = None, rowOffset = None\<rparr>"

definition exMixed :: parsedData where
  "exMixed =
     \<lparr>matrixMap = [rc 0 1, rc 1 0],
      pinMap = [(''kb'', mixedPins)],
      diodeDirection = ''col2row''\<rparr>"






text \<open>A standard matrix overlay that declares no diode direction.\<close>

definition exPlainOverlay :: "string \<times> string" where
  "exPlainOverlay =
     (''boards/shields/zaru/zaru_r.overlay'',
      ''kscan0: kscan { compatible = \"zmk,kscan-gpio-matrix\"; row-gpios = <&xiao_d 0 0>; col-gpios = <&xiao_d 1 0>; };'')"


text \<open>
  Two stores with the same globals: one with nothing in the slots, one with what a call
  on another selection could have left there.
\<close>

definition exFreshStore :: store where
  "exFreshStore =
     \<lparr>g_parsedData = exStd, g_selectedIndices = [0, 1],
      l_selected = [], l_report = [], l_validShields = [], l_objects = noLocals,
      l_coveredIndices = {}\<rparr>"

definition exStaleStore :: store where
  "exStaleStore =
     \<lparr>g_parsedData = exStd, g_selectedIndices = [0, 1],
      l_selected = [0, 1, 2],
      l_report = [Row ''kb'' 0 (Some ''gpio0 1'') [0, 1, 2], Col ''kb'' 2 (Some ''gpio0 5'') [2]],
      l_validShields = [''kb'', ''gone''],
      l_objects = accumulate exStd [0, 1, 2],
      l_coveredIndices = {0, 1, 2}\<rparr>"

section \<open>Lemmas about the analysis\<close>

subsection \<open>Objects\<close>

lemma objGet_objSet: "objGet (objSet k v d) k' = (if k' = k then Some v else objGet d k')"
  by (induction d) (auto simp: objGet_def)

lemma getCount_bump: "getCount (bump d k) k' = getCount d k' + (if k' = k then 1 else 0)"
  by (simp add: getCount_def bump_def objGet_objSet split: option.splits)

lemma objGet_pushAt:
  "objGet (pushAt d k idx) k' =
     (if k' = k then Some ((case objGet d k of None \<Rightarrow> [] | Some xs \<Rightarrow> xs) @ [idx]) else objGet d k')"
  by (simp add: pushAt_def objGet_objSet split: option.splits)

lemma objKeys_mem: "k \<in> set (objKeys d) \<longleftrightarrow> objGet d k \<noteq> None"
  by (simp add: objKeys_def objGet_def map_of_eq_None_iff)

subsection \<open>Keys of the matrix map\<close>

lemma enumerate_filter_fst:
  "map fst (filter (\<lambda>(i, x). Q x) (enumerate 0 xs)) = filter (\<lambda>i. Q (xs ! i)) [0..<length xs]"
proof (induction xs rule: rev_induct)
  case Nil
  then show ?case by simp
next
  case (snoc x xs)
  have "filter (\<lambda>i. Q ((xs @ [x]) ! i)) [0..<length xs] = filter (\<lambda>i. Q (xs ! i)) [0..<length xs]"
    by (rule filter_cong) (auto simp: nth_append)
  with snoc show ?case by (simp add: enumerate_append_eq)
qed

lemma keysWhere_eq: "keysWhere pd P = filter (keyAt pd P) [0..<length (matrixMap pd)]"
proof -
  have "filter (\<lambda>i. case matrixMap pd ! i of None \<Rightarrow> False | Some m \<Rightarrow> P (getSideAndPhysCoords pd (Some m))) [0..<length (matrixMap pd)]
      = filter (keyAt pd P) [0..<length (matrixMap pd)]"
    by (rule filter_cong) (auto simp: keyAt_def matrixMapAt_def)
  then show ?thesis
    using enumerate_filter_fst[of "\<lambda>mo. case mo of None \<Rightarrow> False | Some m \<Rightarrow> P (getSideAndPhysCoords pd (Some m))" "matrixMap pd"]
    by (simp add: keysWhere_def)
qed

lemma set_keysWhere: "set (keysWhere pd P) = {idx. keyAt pd P idx}"
  by (auto simp: keysWhere_eq keyAt_def matrixMapAt_def split: if_splits)

lemma enumerate_filter_length:
  "length (filter (\<lambda>(i, x). Q x) (enumerate n xs)) = length (filter Q xs)"
  by (induction xs arbitrary: n) auto

lemma length_keysWhere:
  "length (keysWhere pd P) =
   length (filter (\<lambda>mo. case mo of None \<Rightarrow> False | Some m \<Rightarrow> P (getSideAndPhysCoords pd (Some m))) (matrixMap pd))"
  by (simp add: keysWhere_def enumerate_filter_length)

lemma onSide_keyAt: "onSide pd s = keyAt pd (\<lambda>q. side q = s)"
  by (rule ext) (simp add: onSide_def keyAt_def)

lemma keyAt_entryAt: "keyAt pd P idx = entryAt pd P (matrixMapAt pd idx)"
  by (simp add: keyAt_def entryAt_def)

lemma length_keysWhere_entryAt: "length (keysWhere pd P) = length (filter (entryAt pd P) (matrixMap pd))"
  unfolding length_keysWhere entryAt_def ..

subsection \<open>Initialisation\<close>

lemma init_fold:
  "groups (fold initStep vs L) s = (if s \<in> set vs then Some \<lparr>rows = [], cols = []\<rparr> else groups L s)"
  "counts (fold initStep vs L) s = (if s \<in> set vs then Some \<lparr>rows = [], cols = []\<rparr> else counts L s)"
  "charlieCounts (fold initStep vs L) s = (if s \<in> set vs then Some \<lparr>roleIn = [], roleOut = []\<rparr> else charlieCounts L s)"
  "charlieTotals (fold initStep vs L) s = (if s \<in> set vs then Some \<lparr>roleIn = [], roleOut = []\<rparr> else charlieTotals L s)"
  by (induction vs arbitrary: L; simp add: initStep_def)+

subsection \<open>Totals\<close>

lemma totalsStep_groups [simp]: "groups (totalsStep pd mo L) = groups L"
  by (simp add: totalsStep_def Let_def split: option.splits)

lemma totalsStep_charlieCounts [simp]: "charlieCounts (totalsStep pd mo L) = charlieCounts L"
  by (simp add: totalsStep_def Let_def split: option.splits)

lemma totalsStep_counts:
  assumes "counts L s = Some cnt"
  shows "counts (totalsStep pd mo L) s =
     Some (case mo of None \<Rightarrow> cnt
           | Some m \<Rightarrow> (let p = getSideAndPhysCoords pd (Some m) in
                if side p = s then \<lparr>rows = bump (rows cnt) (physR p), cols = bump (cols cnt) (physC p)\<rparr>
                else cnt))"
  using assms by (simp add: totalsStep_def Let_def split: option.splits)

lemma totalsStep_charlieTotals:
  assumes "counts L s = Some cnt" "charlieTotals L s = Some ct"
  shows "charlieTotals (totalsStep pd mo L) s =
     Some (case mo of None \<Rightarrow> ct
           | Some m \<Rightarrow> (let p = getSideAndPhysCoords pd (Some m) in
                if side p = s \<and> hasGpios pd s
                then \<lparr>roleIn = bump (roleIn ct) (physR p), roleOut = bump (roleOut ct) (physC p)\<rparr>
                else ct))"
  using assms by (auto simp add: totalsStep_def Let_def hasGpios_def split: option.splits)

lemma totals_fold:
  assumes "counts L s = Some cnt0" "charlieTotals L s = Some ct0"
  shows "\<exists>cnt ct. counts (fold (totalsStep pd) ms L) s = Some cnt \<and>
           charlieTotals (fold (totalsStep pd) ms L) s = Some ct \<and>
           (\<forall>k. getCount (rows cnt) k = getCount (rows cnt0) k +
                   length (filter (entryAt pd (\<lambda>q. side q = s \<and> physR q = k)) ms)) \<and>
           (\<forall>k. getCount (cols cnt) k = getCount (cols cnt0) k +
                   length (filter (entryAt pd (\<lambda>q. side q = s \<and> physC q = k)) ms)) \<and>
           (\<forall>k. getCount (roleIn ct) k = getCount (roleIn ct0) k +
                   (if hasGpios pd s then length (filter (entryAt pd (\<lambda>q. side q = s \<and> physR q = k)) ms) else 0)) \<and>
           (\<forall>k. getCount (roleOut ct) k = getCount (roleOut ct0) k +
                   (if hasGpios pd s then length (filter (entryAt pd (\<lambda>q. side q = s \<and> physC q = k)) ms) else 0))"
  using assms
proof (induction ms arbitrary: L cnt0 ct0)
  case Nil
  then show ?case by simp
next
  case (Cons mo ms)
  obtain cnt1 where c1: "counts (totalsStep pd mo L) s = Some cnt1"
     and c1r: "\<forall>k. getCount (rows cnt1) k = getCount (rows cnt0) k + (if entryAt pd (\<lambda>q. side q = s \<and> physR q = k) mo then 1 else 0)"
     and c1c: "\<forall>k. getCount (cols cnt1) k = getCount (cols cnt0) k + (if entryAt pd (\<lambda>q. side q = s \<and> physC q = k) mo then 1 else 0)"
    using totalsStep_counts[OF Cons.prems(1), of pd mo]
    by (auto simp: entryAt_def Let_def getCount_bump split: option.splits)
  obtain ct1 where t1: "charlieTotals (totalsStep pd mo L) s = Some ct1"
     and t1r: "\<forall>k. getCount (roleIn ct1) k = getCount (roleIn ct0) k + (if hasGpios pd s \<and> entryAt pd (\<lambda>q. side q = s \<and> physR q = k) mo then 1 else 0)"
     and t1c: "\<forall>k. getCount (roleOut ct1) k = getCount (roleOut ct0) k + (if hasGpios pd s \<and> entryAt pd (\<lambda>q. side q = s \<and> physC q = k) mo then 1 else 0)"
    using totalsStep_charlieTotals[OF Cons.prems(1,2), of pd mo]
    by (auto simp: entryAt_def Let_def getCount_bump split: option.splits)
  from Cons.IH[OF c1 t1] obtain cnt ct where
    r: "counts (fold (totalsStep pd) ms (totalsStep pd mo L)) s = Some cnt"
       "charlieTotals (fold (totalsStep pd) ms (totalsStep pd mo L)) s = Some ct"
       "\<forall>k. getCount (rows cnt) k = getCount (rows cnt1) k + length (filter (entryAt pd (\<lambda>q. side q = s \<and> physR q = k)) ms)"
       "\<forall>k. getCount (cols cnt) k = getCount (cols cnt1) k + length (filter (entryAt pd (\<lambda>q. side q = s \<and> physC q = k)) ms)"
       "\<forall>k. getCount (roleIn ct) k = getCount (roleIn ct1) k + (if hasGpios pd s then length (filter (entryAt pd (\<lambda>q. side q = s \<and> physR q = k)) ms) else 0)"
       "\<forall>k. getCount (roleOut ct) k = getCount (roleOut ct1) k + (if hasGpios pd s then length (filter (entryAt pd (\<lambda>q. side q = s \<and> physC q = k)) ms) else 0)"
    by blast
  show ?case
    apply (rule exI[of _ cnt], rule exI[of _ ct])
    using r c1r c1c t1r t1c by simp
qed

subsection \<open>Groups\<close>

lemma groupsStep_counts [simp]: "counts (groupsStep pd idx L) = counts L"
  by (simp add: groupsStep_def Let_def split: option.splits)

lemma groupsStep_charlieTotals [simp]: "charlieTotals (groupsStep pd idx L) = charlieTotals L"
  by (simp add: groupsStep_def Let_def split: option.splits)

lemma groups_fold_counts [simp]: "counts (fold (groupsStep pd) xs L) = counts L"
  by (induction xs arbitrary: L) simp_all

lemma groups_fold_charlieTotals [simp]: "charlieTotals (fold (groupsStep pd) xs L) = charlieTotals L"
  by (induction xs arbitrary: L) simp_all

lemma totals_fold_groups [simp]: "groups (fold (totalsStep pd) xs L) = groups L"
  by (induction xs arbitrary: L) simp_all

lemma totals_fold_charlieCounts [simp]: "charlieCounts (fold (totalsStep pd) xs L) = charlieCounts L"
  by (induction xs arbitrary: L) simp_all

lemma groupsStep_groups:
  assumes "groups L s = Some g"
  shows "groups (groupsStep pd idx L) s =
     Some (case matrixMapAt pd idx of None \<Rightarrow> g
           | Some m \<Rightarrow> (let p = getSideAndPhysCoords pd (Some m) in
                if side p = s then \<lparr>rows = pushAt (rows g) (physR p) idx, cols = pushAt (cols g) (physC p) idx\<rparr>
                else g))"
  using assms by (simp add: groupsStep_def Let_def split: option.splits)

lemma groupsStep_charlieCounts:
  assumes "groups L s = Some g" "charlieCounts L s = Some cc"
  shows "charlieCounts (groupsStep pd idx L) s =
     Some (case matrixMapAt pd idx of None \<Rightarrow> cc
           | Some m \<Rightarrow> (let p = getSideAndPhysCoords pd (Some m) in
                if side p = s \<and> hasGpios pd s
                then \<lparr>roleIn = bump (roleIn cc) (physR p), roleOut = bump (roleOut cc) (physC p)\<rparr>
                else cc))"
  using assms by (auto simp add: groupsStep_def Let_def hasGpios_def split: option.splits)

lemma getList_pushAt:
  "getList (pushAt d k idx) k' = getList d k' @ (if k' = k then [idx] else [])"
  by (simp add: getList_def objGet_pushAt)

lemma pushAt_nonempty:
  "\<forall>k'. objGet d k' \<noteq> Some [] \<Longrightarrow> objGet (pushAt d k idx) k' \<noteq> Some []"
  by (simp add: objGet_pushAt)

lemma groups_fold:
  assumes "groups L s = Some g0" "charlieCounts L s = Some cc0"
    "\<forall>k. objGet (rows g0) k \<noteq> Some []" "\<forall>k. objGet (cols g0) k \<noteq> Some []"
  shows "\<exists>g cc. groups (fold (groupsStep pd) sel L) s = Some g \<and>
           charlieCounts (fold (groupsStep pd) sel L) s = Some cc \<and>
           (\<forall>k. objGet (rows g) k \<noteq> Some []) \<and> (\<forall>k. objGet (cols g) k \<noteq> Some []) \<and>
           (\<forall>k. getList (rows g) k = getList (rows g0) k @
                   filter (keyAt pd (\<lambda>q. side q = s \<and> physR q = k)) sel) \<and>
           (\<forall>k. getList (cols g) k = getList (cols g0) k @
                   filter (keyAt pd (\<lambda>q. side q = s \<and> physC q = k)) sel) \<and>
           (\<forall>k. getCount (roleIn cc) k = getCount (roleIn cc0) k +
                   (if hasGpios pd s then length (filter (keyAt pd (\<lambda>q. side q = s \<and> physR q = k)) sel) else 0)) \<and>
           (\<forall>k. getCount (roleOut cc) k = getCount (roleOut cc0) k +
                   (if hasGpios pd s then length (filter (keyAt pd (\<lambda>q. side q = s \<and> physC q = k)) sel) else 0))"
  using assms
proof (induction sel arbitrary: L g0 cc0)
  case Nil
  then show ?case by simp
next
  case (Cons idx sel)
  obtain g1 where g1: "groups (groupsStep pd idx L) s = Some g1"
     and g1r: "\<forall>k. getList (rows g1) k = getList (rows g0) k @ (if keyAt pd (\<lambda>q. side q = s \<and> physR q = k) idx then [idx] else [])"
     and g1c: "\<forall>k. getList (cols g1) k = getList (cols g0) k @ (if keyAt pd (\<lambda>q. side q = s \<and> physC q = k) idx then [idx] else [])"
     and g1rn: "\<forall>k. objGet (rows g1) k \<noteq> Some []" and g1cn: "\<forall>k. objGet (cols g1) k \<noteq> Some []"
    using groupsStep_groups[OF Cons.prems(1), of pd idx] Cons.prems(3,4)
    by (auto simp: keyAt_def Let_def getList_pushAt objGet_pushAt split: option.splits)
  obtain cc1 where t1: "charlieCounts (groupsStep pd idx L) s = Some cc1"
     and t1r: "\<forall>k. getCount (roleIn cc1) k = getCount (roleIn cc0) k + (if hasGpios pd s \<and> keyAt pd (\<lambda>q. side q = s \<and> physR q = k) idx then 1 else 0)"
     and t1c: "\<forall>k. getCount (roleOut cc1) k = getCount (roleOut cc0) k + (if hasGpios pd s \<and> keyAt pd (\<lambda>q. side q = s \<and> physC q = k) idx then 1 else 0)"
    using groupsStep_charlieCounts[OF Cons.prems(1,2), of pd idx]
    by (auto simp: keyAt_def Let_def getCount_bump split: option.splits)
  from Cons.IH[OF g1 t1 g1rn g1cn] obtain g cc where
    r: "groups (fold (groupsStep pd) sel (groupsStep pd idx L)) s = Some g"
       "charlieCounts (fold (groupsStep pd) sel (groupsStep pd idx L)) s = Some cc"
       "\<forall>k. objGet (rows g) k \<noteq> Some []" "\<forall>k. objGet (cols g) k \<noteq> Some []"
       "\<forall>k. getList (rows g) k = getList (rows g1) k @ filter (keyAt pd (\<lambda>q. side q = s \<and> physR q = k)) sel"
       "\<forall>k. getList (cols g) k = getList (cols g1) k @ filter (keyAt pd (\<lambda>q. side q = s \<and> physC q = k)) sel"
       "\<forall>k. getCount (roleIn cc) k = getCount (roleIn cc1) k + (if hasGpios pd s then length (filter (keyAt pd (\<lambda>q. side q = s \<and> physR q = k)) sel) else 0)"
       "\<forall>k. getCount (roleOut cc) k = getCount (roleOut cc1) k + (if hasGpios pd s then length (filter (keyAt pd (\<lambda>q. side q = s \<and> physC q = k)) sel) else 0)"
    by blast
  show ?case
    apply (rule exI[of _ g], rule exI[of _ cc])
    using r g1r g1c t1r t1c by simp
qed

lemma objGet_getList:
  "objGet d k \<noteq> Some [] \<Longrightarrow> objGet d k = (if getList d k = [] then None else Some (getList d k))"
  by (auto simp: getList_def split: option.splits)

text \<open>What the three loops leave for a valid shield.\<close>

lemma accumulate_valid:
  assumes "s \<in> set (validShields pd)"
  shows "\<exists>g cnt cc ct.
     groups (accumulate pd sel) s = Some g \<and> counts (accumulate pd sel) s = Some cnt \<and>
     charlieCounts (accumulate pd sel) s = Some cc \<and> charlieTotals (accumulate pd sel) s = Some ct \<and>
     (\<forall>k. objGet (rows g) k =
        (if filter (keyAt pd (\<lambda>q. side q = s \<and> physR q = k)) sel = [] then None
         else Some (filter (keyAt pd (\<lambda>q. side q = s \<and> physR q = k)) sel))) \<and>
     (\<forall>k. objGet (cols g) k =
        (if filter (keyAt pd (\<lambda>q. side q = s \<and> physC q = k)) sel = [] then None
         else Some (filter (keyAt pd (\<lambda>q. side q = s \<and> physC q = k)) sel))) \<and>
     (\<forall>k. getCount (rows cnt) k = length (keysWhere pd (\<lambda>q. side q = s \<and> physR q = k))) \<and>
     (\<forall>k. getCount (cols cnt) k = length (keysWhere pd (\<lambda>q. side q = s \<and> physC q = k))) \<and>
     (hasGpios pd s \<longrightarrow>
       (\<forall>k. getCount (roleIn ct) k = length (keysWhere pd (\<lambda>q. side q = s \<and> physR q = k))) \<and>
       (\<forall>k. getCount (roleOut ct) k = length (keysWhere pd (\<lambda>q. side q = s \<and> physC q = k))) \<and>
       (\<forall>k. getCount (roleIn cc) k = length (filter (keyAt pd (\<lambda>q. side q = s \<and> physR q = k)) sel)) \<and>
       (\<forall>k. getCount (roleOut cc) k = length (filter (keyAt pd (\<lambda>q. side q = s \<and> physC q = k)) sel)))"
proof -
  let ?L0 = "fold initStep (validShields pd) noLocals"
  let ?L1 = "fold (totalsStep pd) (matrixMap pd) ?L0"
  have i: "groups ?L0 s = Some \<lparr>rows = [], cols = []\<rparr>" "counts ?L0 s = Some \<lparr>rows = [], cols = []\<rparr>"
          "charlieCounts ?L0 s = Some \<lparr>roleIn = [], roleOut = []\<rparr>"
          "charlieTotals ?L0 s = Some \<lparr>roleIn = [], roleOut = []\<rparr>"
    using assms by (simp_all add: init_fold)
  from totals_fold[OF i(2) i(4), of pd "matrixMap pd"] obtain cnt ct where
    t: "counts ?L1 s = Some cnt" "charlieTotals ?L1 s = Some ct"
       "\<forall>k. getCount (rows cnt) k = length (filter (entryAt pd (\<lambda>q. side q = s \<and> physR q = k)) (matrixMap pd))"
       "\<forall>k. getCount (cols cnt) k = length (filter (entryAt pd (\<lambda>q. side q = s \<and> physC q = k)) (matrixMap pd))"
       "\<forall>k. getCount (roleIn ct) k = (if hasGpios pd s then length (filter (entryAt pd (\<lambda>q. side q = s \<and> physR q = k)) (matrixMap pd)) else 0)"
       "\<forall>k. getCount (roleOut ct) k = (if hasGpios pd s then length (filter (entryAt pd (\<lambda>q. side q = s \<and> physC q = k)) (matrixMap pd)) else 0)"
    by (auto simp: getCount_def objGet_def)
  have g0: "groups ?L1 s = Some \<lparr>rows = [], cols = []\<rparr>" "charlieCounts ?L1 s = Some \<lparr>roleIn = [], roleOut = []\<rparr>"
    using i by simp_all
  from groups_fold[OF g0, of pd sel] obtain g cc where
    g: "groups (accumulate pd sel) s = Some g" "charlieCounts (accumulate pd sel) s = Some cc"
       "\<forall>k. objGet (rows g) k \<noteq> Some []" "\<forall>k. objGet (cols g) k \<noteq> Some []"
       "\<forall>k. getList (rows g) k = filter (keyAt pd (\<lambda>q. side q = s \<and> physR q = k)) sel"
       "\<forall>k. getList (cols g) k = filter (keyAt pd (\<lambda>q. side q = s \<and> physC q = k)) sel"
       "\<forall>k. getCount (roleIn cc) k = (if hasGpios pd s then length (filter (keyAt pd (\<lambda>q. side q = s \<and> physR q = k)) sel) else 0)"
       "\<forall>k. getCount (roleOut cc) k = (if hasGpios pd s then length (filter (keyAt pd (\<lambda>q. side q = s \<and> physC q = k)) sel) else 0)"
    by (auto simp: accumulate_def getCount_def getList_def objGet_def)
  have a: "counts (accumulate pd sel) s = Some cnt" "charlieTotals (accumulate pd sel) s = Some ct"
    using t(1,2) by (simp_all add: accumulate_def)
  have gr: "\<forall>k. objGet (rows g) k =
        (if filter (keyAt pd (\<lambda>q. side q = s \<and> physR q = k)) sel = [] then None
         else Some (filter (keyAt pd (\<lambda>q. side q = s \<and> physR q = k)) sel))"
    using g(3,5) objGet_getList[of "rows g"] by metis
  have gc: "\<forall>k. objGet (cols g) k =
        (if filter (keyAt pd (\<lambda>q. side q = s \<and> physC q = k)) sel = [] then None
         else Some (filter (keyAt pd (\<lambda>q. side q = s \<and> physC q = k)) sel))"
    using g(4,6) objGet_getList[of "cols g"] by metis
  show ?thesis
    apply (rule exI[of _ g], rule exI[of _ cnt], rule exI[of _ cc], rule exI[of _ ct])
    using g(1,2) a gr gc t(3-6) g(7,8) by (simp add: length_keysWhere_entryAt)
qed

lemma coveredBy_Nil [simp]: "coveredBy [] = {}"
  by (simp add: coveredBy_def)

lemma coveredBy_append [simp]: "coveredBy (a @ b) = coveredBy a \<union> coveredBy b"
  by (auto simp: coveredBy_def)

lemma coveredBy_Cons: "coveredBy (rep # reps) = (if rtype rep \<noteq> ''single'' then set (rindices rep) else {}) \<union> coveredBy reps"
  by (auto simp: coveredBy_def)

lemma coveredBy_concat: "coveredBy (concat xss) = (\<Union>xs \<in> set xss. coveredBy xs)"
  by (induction xss) auto

lemma emitterI:
  assumes "\<And>st. f st = (fst st @ out, snd st \<union> coveredBy out)"
  shows "emitter f"
proof -
  have "f ([], {}) = (out, coveredBy out)" using assms[of "([], {})"] by simp
  then show ?thesis using assms by (simp add: emitter_def)
qed

lemma emitterD:
  assumes "emitter f"
  shows "f st = (fst st @ fst (f ([], {})), snd st \<union> coveredBy (fst (f ([], {}))))"
  using assms[unfolded emitter_def] by (rule spec)

lemma emitter_id: "emitter (\<lambda>st. st)"
  by (rule emitterI[where out = "[]"]) simp

lemma emitter_comp:
  assumes "emitter f" "emitter g"
  shows "emitter (\<lambda>st. g (f st))"
    and "fst (g (f ([], {}))) = fst (f ([], {})) @ fst (g ([], {}))"
proof -
  let ?F = "fst (f ([], {}))" and ?G = "fst (g ([], {}))"
  have a: "g (f st) = (fst st @ (?F @ ?G), snd st \<union> coveredBy (?F @ ?G))" for st
    using emitterD[OF assms(1), of st] emitterD[OF assms(2), of "f st"] by (simp add: Un_assoc)
  show "emitter (\<lambda>st. g (f st))" by (rule emitterI[where out = "?F @ ?G"]) (rule a)
  show "fst (g (f ([], {}))) = ?F @ ?G" using a[of "([], {})"] by simp
qed

lemma emitter_fold:
  assumes "\<And>x. emitter (f x)"
  shows "emitter (fold f xs)"
    and "fst (fold f xs ([], {})) = concat (map (\<lambda>x. fst (f x ([], {}))) xs)"
proof -
  have a: "fold f xs st = (fst st @ concat (map (\<lambda>x. fst (f x ([], {}))) xs),
                          snd st \<union> coveredBy (concat (map (\<lambda>x. fst (f x ([], {}))) xs)))" for st
  proof (induction xs arbitrary: st)
    case Nil
    then show ?case by simp
  next
    case (Cons x xs)
    show ?case using emitterD[OF assms, of x st] Cons.IH[of "f x st"] by (simp add: Un_assoc)
  qed
  show "emitter (fold f xs)" by (rule emitterI) (rule a)
  show "fst (fold f xs ([], {})) = concat (map (\<lambda>x. fst (f x ([], {}))) xs)"
    using a[of "([], {})"] by simp
qed

subsection \<open>The passes\<close>

lemma interruptPass_emitter: "emitter (interruptPass pd sel s p)"
  unfolding emitter_def
  by (simp add: interruptPass_def Let_def coveredBy_Cons split: option.splits)

lemma charlieStep_emitter: "emitter (charlieStep pd sel s gp cc ct k)"
  unfolding emitter_def
  by (simp add: charlieStep_def Let_def coveredBy_Cons)

lemma charliePass_emitter: "emitter (charliePass pd sel L s gp)"
proof -
  have "charliePass pd sel L s gp =
     (case charlieTotals L s of None \<Rightarrow> (\<lambda>st. st)
      | Some ct \<Rightarrow> (case charlieCounts L s of None \<Rightarrow> (\<lambda>st. st)
         | Some cc \<Rightarrow> fold (charlieStep pd sel s gp cc ct) (setFrom (objKeys (roleIn ct) @ objKeys (roleOut ct)))))"
    by (rule ext) (simp add: charliePass_def split: option.splits)
  then show ?thesis
    by (simp add: emitter_id emitter_fold(1) charlieStep_emitter split: option.splits)
qed

lemma directStep_emitter: "emitter (directStep pd s d idx)"
  unfolding emitter_def
  by (simp add: directStep_def Let_def coveredBy_Cons)

lemma directPass_emitter: "emitter (directPass pd sel s d)"
proof -
  let ?di = "keysWhere pd (\<lambda>p. side p = s \<and> objGet d (physC p) \<noteq> None)"
  let ?sd = "filter (\<lambda>idx. idx \<in> set sel) ?di"
  show ?thesis
  proof (cases "length ?di > 2 \<and> ratioOver (length ?sd) (length ?di) 0.8")
    case True
    then have "directPass pd sel s d = (\<lambda>st. (fst st @ [DirectGnd s ?di], snd st \<union> set ?di))"
      by (intro ext) (simp add: directPass_def Let_def)
    then show ?thesis by (simp add: emitter_def coveredBy_Cons)
  next
    case False
    then have "directPass pd sel s d = fold (directStep pd s d) ?sd"
      by (intro ext) (auto simp add: directPass_def Let_def)
    then show ?thesis by (simp add: emitter_fold(1) directStep_emitter)
  qed
qed

lemma rowStep_emitter: "emitter (rowStep s p g cnt k)"
  unfolding emitter_def
  by (simp add: rowStep_def coveredBy_Cons split: option.splits)

lemma colStep_emitter: "emitter (colStep s p g cnt k)"
  unfolding emitter_def
  by (simp add: colStep_def coveredBy_Cons split: option.splits)

lemma standardPass_emitter: "emitter (standardPass L s p)"
proof -
  have "standardPass L s p =
     (case groups L s of None \<Rightarrow> (\<lambda>st. st)
      | Some g \<Rightarrow> (case counts L s of None \<Rightarrow> (\<lambda>st. st)
         | Some cnt \<Rightarrow> (\<lambda>st. fold (colStep s p g cnt) (objKeys (cols g)) (fold (rowStep s p g cnt) (objKeys (rows g)) st))))"
    by (rule ext) (simp add: standardPass_def split: option.splits)
  then show ?thesis
    by (simp add: emitter_id emitter_comp(1) emitter_fold(1) rowStep_emitter colStep_emitter split: option.splits)
qed

lemma modePass_emitter: "emitter (modePass pd sel L s p)"
proof -
  have "modePass pd sel L s p =
     (case gpios p of Some gp \<Rightarrow> charliePass pd sel L s gp
      | None \<Rightarrow> (case direct p of Some d \<Rightarrow> directPass pd sel s d | None \<Rightarrow> standardPass L s p))"
    by (rule ext) (simp add: modePass_def split: option.splits)
  then show ?thesis
    by (simp add: charliePass_emitter directPass_emitter standardPass_emitter split: option.splits)
qed

lemma singlesPass_shape:
  "singlesPass pd sel s st = (fst st @ concat (map (singleOut pd s (snd st)) sel), snd st)"
  unfolding singlesPass_def
proof (induction sel arbitrary: st)
  case Nil
  then show ?case by simp
next
  case (Cons idx sel)
  have "singleStep pd s idx st = (fst st @ singleOut pd s (snd st) idx, snd st)"
    by (simp add: singleStep_def singleOut_def split: option.splits)
  then show ?case using Cons.IH[of "singleStep pd s idx st"] by simp
qed

lemma singleOut_cases:
  "singleOut pd s C idx = [] \<or>
   (\<exists>m. idx \<notin> C \<and> matrixMapAt pd idx = Some m \<and> side (getSideAndPhysCoords pd (Some m)) = s \<and>
        singleOut pd s C idx = [Single s (r m) (c m) idx [idx]])"
  by (auto simp: singleOut_def split: option.splits)

lemma singleOut_single: "rep \<in> set (singleOut pd s C idx) \<Longrightarrow> rtype rep = ''single''"
  using singleOut_cases[of pd s C idx] by auto

lemma filter_singles_nonSingle:
  "filter (\<lambda>rep. rtype rep \<noteq> ''single'') (concat (map (singleOut pd s C) sel)) = []"
  by (auto simp: filter_empty_conv dest: singleOut_single)

lemma coveredBy_singles: "coveredBy (concat (map (singleOut pd s C) sel)) = {}"
  by (auto simp: coveredBy_def dest: singleOut_single)

subsection \<open>What each pass emits\<close>

lemma interruptPass_out:
  "rep \<in> set (fst (interruptPass pd sel s p ([], {}))) \<Longrightarrow> rtype rep = ''interrupt'' \<and> rside rep = s"
  by (auto simp: interruptPass_def Let_def split: option.splits if_splits)

lemma charliePass_out:
  assumes "rep \<in> set (fst (charliePass pd sel L s gp ([], {})))"
  shows "rtype rep = ''charlie'' \<and> rside rep = s"
proof -
  have step: "rep \<in> set (fst (charlieStep pd sel s gp cc ct k ([], {}))) \<Longrightarrow> rtype rep = ''charlie'' \<and> rside rep = s"
    for cc ct k
    by (auto simp: charlieStep_def Let_def split: if_splits)
  show ?thesis using assms step
    by (auto simp: charliePass_def emitter_fold(2)[OF charlieStep_emitter] split: option.splits)
qed

lemma directPass_out:
  assumes "rep \<in> set (fst (directPass pd sel s d ([], {})))"
  shows "(rtype rep = ''direct'' \<or> rtype rep = ''direct_gnd'') \<and> rside rep = s"
proof -
  have step: "rep \<in> set (fst (directStep pd s d k ([], {}))) \<Longrightarrow> rtype rep = ''direct'' \<and> rside rep = s" for k
    by (auto simp: directStep_def Let_def)
  show ?thesis using assms step
    by (auto simp: directPass_def Let_def emitter_fold(2)[OF directStep_emitter] split: if_splits)
qed

lemma standardPass_split:
  "fst (fold (colStep s p g cnt) ks2 (fold (rowStep s p g cnt) ks1 ([], {}))) =
     concat (map (\<lambda>k. fst (rowStep s p g cnt k ([], {}))) ks1) @
     concat (map (\<lambda>k. fst (colStep s p g cnt k ([], {}))) ks2)"
  using emitter_comp(2)[OF emitter_fold(1)[of "rowStep s p g cnt" ks1, OF rowStep_emitter]
                           emitter_fold(1)[of "colStep s p g cnt" ks2, OF colStep_emitter]]
  by (simp add: emitter_fold(2)[OF rowStep_emitter] emitter_fold(2)[OF colStep_emitter])

lemma standardPass_out:
  assumes "rep \<in> set (fst (standardPass L s p ([], {})))"
  shows "(rtype rep = ''row'' \<or> rtype rep = ''col'') \<and> rside rep = s"
proof -
  have rs: "rep \<in> set (fst (rowStep s p g cnt k ([], {}))) \<Longrightarrow> rtype rep = ''row'' \<and> rside rep = s" for g cnt k
    by (auto simp: rowStep_def split: option.splits if_splits)
  have cs: "rep \<in> set (fst (colStep s p g cnt k ([], {}))) \<Longrightarrow> rtype rep = ''col'' \<and> rside rep = s" for g cnt k
    by (auto simp: colStep_def split: option.splits if_splits)
  from assms obtain g cnt where
    "rep \<in> set (concat (map (\<lambda>k. fst (rowStep s p g cnt k ([], {}))) (objKeys (rows g)))) \<or>
     rep \<in> set (concat (map (\<lambda>k. fst (colStep s p g cnt k ([], {}))) (objKeys (cols g))))"
    by (auto simp: standardPass_def standardPass_split split: option.splits)
  then show ?thesis
  proof
    assume "rep \<in> set (concat (map (\<lambda>k. fst (rowStep s p g cnt k ([], {}))) (objKeys (rows g))))"
    then obtain k where "rep \<in> set (fst (rowStep s p g cnt k ([], {})))" by auto
    from rs[OF this] show ?thesis by simp
  next
    assume "rep \<in> set (concat (map (\<lambda>k. fst (colStep s p g cnt k ([], {}))) (objKeys (cols g))))"
    then obtain k where "rep \<in> set (fst (colStep s p g cnt k ([], {})))" by auto
    from cs[OF this] show ?thesis by simp
  qed
qed

lemma modePass_out:
  assumes "rep \<in> set (fst (modePass pd sel L s p ([], {})))"
  shows "rside rep = s \<and>
         (case gpios p of Some gp \<Rightarrow> rtype rep = ''charlie''
          | None \<Rightarrow> (case direct p of Some d \<Rightarrow> rtype rep = ''direct'' \<or> rtype rep = ''direct_gnd''
                     | None \<Rightarrow> rtype rep = ''row'' \<or> rtype rep = ''col''))"
  using assms charliePass_out directPass_out standardPass_out
  by (auto simp: modePass_def split: option.splits)

lemma lineReports_out:
  assumes "rep \<in> set (lineReports pd sel L s)"
  shows "rside rep = s \<and> rtype rep \<noteq> ''single''"
proof -
  from assms obtain p where p: "pinMapAt pd s = Some p"
    by (cases "pinMapAt pd s") (auto simp: lineReports_def)
  with assms have m: "rep \<in> set (fst (interruptPass pd sel s p ([], {}))) \<or> rep \<in> set (fst (modePass pd sel L s p ([], {})))"
    by (auto simp: lineReports_def)
  from m show ?thesis
  proof
    assume "rep \<in> set (fst (interruptPass pd sel s p ([], {})))"
    from interruptPass_out[OF this] show ?thesis by simp
  next
    assume "rep \<in> set (fst (modePass pd sel L s p ([], {})))"
    from modePass_out[OF this] show ?thesis by (auto split: option.splits)
  qed
qed

subsection \<open>A shield's pass and the loop over the shields\<close>

lemma analyzeSide_shape:
  "analyzeSide pd sel L s st =
     (fst st @ lineReports pd sel L s @
        (case pinMapAt pd s of None \<Rightarrow> []
         | Some p \<Rightarrow> concat (map (singleOut pd s (snd st \<union> coveredBy (lineReports pd sel L s))) sel)),
      snd st \<union> coveredBy (lineReports pd sel L s))"
proof (cases "pinMapAt pd s")
  case None
  then show ?thesis by (simp add: analyzeSide_def lineReports_def)
next
  case (Some p)
  have e: "emitter (\<lambda>st. modePass pd sel L s p (interruptPass pd sel s p st))"
    and o: "fst (modePass pd sel L s p (interruptPass pd sel s p ([], {}))) = lineReports pd sel L s"
    using emitter_comp[OF interruptPass_emitter[of pd sel s p] modePass_emitter[of pd sel L s p]] Some
    by (simp_all add: lineReports_def)
  from emitterD[OF e, of st] o
  have "modePass pd sel L s p (interruptPass pd sel s p st) =
          (fst st @ lineReports pd sel L s, snd st \<union> coveredBy (lineReports pd sel L s))"
    by simp
  then show ?thesis using Some by (simp add: analyzeSide_def singlesPass_shape)
qed

lemma analyze_fold_covered:
  "snd (fold (analyzeSide pd sel L) vs st) = snd st \<union> coveredBy (concat (map (lineReports pd sel L) vs))"
  by (induction vs arbitrary: st) (simp_all add: analyzeSide_shape Un_assoc)

lemma analyze_fold_nonSingle:
  "filter (\<lambda>rep. rtype rep \<noteq> ''single'') (fst (fold (analyzeSide pd sel L) vs st)) =
   filter (\<lambda>rep. rtype rep \<noteq> ''single'') (fst st) @ concat (map (lineReports pd sel L) vs)"
proof (induction vs arbitrary: st)
  case Nil
  then show ?case by simp
next
  case (Cons s vs)
  have l: "filter (\<lambda>rep. rtype rep \<noteq> ''single'') (lineReports pd sel L s) = lineReports pd sel L s"
    using lineReports_out[of _ pd sel L s] by (simp add: filter_id_conv)
  show ?case
    using Cons.IH[of "analyzeSide pd sel L s st"] l
    by (simp add: analyzeSide_shape filter_singles_nonSingle split: option.splits)
qed

lemma analyzeFailures_nonSingle:
  "filter (\<lambda>rep. rtype rep \<noteq> ''single'') (analyzeFailures pd sel) =
   concat (map (lineReports pd sel (accumulate pd sel)) (validShields pd))"
  by (simp add: analyzeFailures_def analyze_fold_nonSingle)

lemma analyzeFailures_line_mem:
  assumes "rtype rep \<noteq> ''single''"
  shows "rep \<in> set (analyzeFailures pd sel) \<longleftrightarrow>
         rside rep \<in> set (validShields pd) \<and> rep \<in> set (lineReports pd sel (accumulate pd sel) (rside rep))"
proof -
  have "rep \<in> set (analyzeFailures pd sel) \<longleftrightarrow>
        rep \<in> set (filter (\<lambda>rep. rtype rep \<noteq> ''single'') (analyzeFailures pd sel))"
    using assms by simp
  also have "\<dots> \<longleftrightarrow> (\<exists>s \<in> set (validShields pd). rep \<in> set (lineReports pd sel (accumulate pd sel) s))"
    unfolding analyzeFailures_nonSingle by auto
  also have "\<dots> \<longleftrightarrow> rside rep \<in> set (validShields pd) \<and> rep \<in> set (lineReports pd sel (accumulate pd sel) (rside rep))"
    using lineReports_out by blast
  finally show ?thesis .
qed

lemma validShields_distinct: "distinct (map fst (pinMap pd)) \<Longrightarrow> distinct (validShields pd)"
  by (simp add: validShields_def)

lemma analyzeFailures_covered:
  "coveredBy (analyzeFailures pd sel) =
   coveredBy (concat (map (lineReports pd sel (accumulate pd sel)) (validShields pd)))"
proof -
  have "coveredBy reps = coveredBy (filter (\<lambda>rep. rtype rep \<noteq> ''single'') reps)" for reps
    by (simp add: coveredBy_def)
  then show ?thesis using analyzeFailures_nonSingle[of pd sel] by metis
qed

lemma analyze_fold_single_mem:
  assumes "rep \<in> set (fst (fold (analyzeSide pd sel L) vs st))" "rtype rep = ''single''"
  shows "rep \<in> set (fst st) \<or>
         (\<exists>s \<in> set vs. \<exists>idx m. rep = Single s (r m) (c m) idx [idx] \<and> idx \<in> set sel \<and>
             matrixMapAt pd idx = Some m \<and> side (getSideAndPhysCoords pd (Some m)) = s \<and>
             idx \<notin> coveredBy (lineReports pd sel L s))"
  using assms
proof (induction vs arbitrary: st)
  case Nil
  then show ?case by simp
next
  case (Cons s vs)
  from Cons.IH[OF Cons.prems(1)[simplified] Cons.prems(2)]
  show ?case
  proof
    assume "rep \<in> set (fst (analyzeSide pd sel L s st))"
    then consider "rep \<in> set (fst st)" | "rep \<in> set (lineReports pd sel L s)"
      | "rep \<in> set (concat (map (singleOut pd s (snd st \<union> coveredBy (lineReports pd sel L s))) sel))"
      by (auto simp: analyzeSide_shape split: option.splits)
    then show ?thesis
    proof cases
      case 1
      then show ?thesis by simp
    next
      case 2
      from lineReports_out[OF this] Cons.prems(2) show ?thesis by simp
    next
      case 3
      then obtain idx where i: "idx \<in> set sel"
        "rep \<in> set (singleOut pd s (snd st \<union> coveredBy (lineReports pd sel L s)) idx)" by auto
      with singleOut_cases[of pd s "snd st \<union> coveredBy (lineReports pd sel L s)" idx]
      obtain m where "idx \<notin> snd st \<union> coveredBy (lineReports pd sel L s)" "matrixMapAt pd idx = Some m"
         "side (getSideAndPhysCoords pd (Some m)) = s" "rep = Single s (r m) (c m) idx [idx]"
        by auto
      with i(1) show ?thesis by auto
    qed
  next
    assume "\<exists>s \<in> set vs. \<exists>idx m. rep = Single s (r m) (c m) idx [idx] \<and> idx \<in> set sel \<and>
             matrixMapAt pd idx = Some m \<and> side (getSideAndPhysCoords pd (Some m)) = s \<and>
             idx \<notin> coveredBy (lineReports pd sel L s)"
    then show ?thesis by auto
  qed
qed

lemma analyzeFailures_single_mem:
  assumes "rep \<in> set (analyzeFailures pd sel)" "rtype rep = ''single''"
  shows "\<exists>s \<in> set (validShields pd). \<exists>idx m. rep = Single s (r m) (c m) idx [idx] \<and> idx \<in> set sel \<and>
             matrixMapAt pd idx = Some m \<and> side (getSideAndPhysCoords pd (Some m)) = s \<and>
             idx \<notin> coveredBy (lineReports pd sel (accumulate pd sel) s)"
proof (cases "length (validShields pd) = 0")
  case True
  then show ?thesis using assms by (simp add: analyzeFailures_def)
next
  case False
  then have "rep \<in> set (fst (fold (analyzeSide pd sel (accumulate pd sel)) (validShields pd) ([], {})))"
    using assms(1) by (simp add: analyzeFailures_def)
  from analyze_fold_single_mem[OF this assms(2)] show ?thesis by simp
qed

lemma singles_count:
  assumes "distinct sel" "idx \<notin> C" "matrixMapAt pd idx = Some m"
  shows "length (filter (\<lambda>rep. rtype rep = ''single'' \<and> idx \<in> set (rindices rep))
                   (concat (map (singleOut pd s C) sel))) =
         (if idx \<in> set sel \<and> side (getSideAndPhysCoords pd (Some m)) = s then 1 else 0)"
  using assms(1)
proof (induction sel)
  case Nil
  then show ?case by simp
next
  case (Cons j sel)
  have one: "length (filter (\<lambda>rep. rtype rep = ''single'' \<and> idx \<in> set (rindices rep)) (singleOut pd s C j)) =
             (if j = idx \<and> side (getSideAndPhysCoords pd (Some m)) = s then 1 else 0)"
    using assms(2,3) by (auto simp: singleOut_def split: option.splits)
  from Cons have "idx \<in> set sel \<Longrightarrow> j \<noteq> idx" by auto
  with Cons one show ?case by auto
qed

lemma analyze_fold_single_count:
  assumes "distinct vs" "distinct sel" "idx \<in> set sel" "matrixMapAt pd idx = Some m"
    "idx \<notin> snd (fold (analyzeSide pd sel L) vs st)" "\<forall>s \<in> set vs. pinMapAt pd s \<noteq> None"
  shows "length (filter (\<lambda>rep. rtype rep = ''single'' \<and> idx \<in> set (rindices rep))
                   (fst (fold (analyzeSide pd sel L) vs st))) =
         length (filter (\<lambda>rep. rtype rep = ''single'' \<and> idx \<in> set (rindices rep)) (fst st)) +
         (if side (getSideAndPhysCoords pd (Some m)) \<in> set vs then 1 else 0)"
  using assms(1,5,6)
proof (induction vs arbitrary: st)
  case Nil
  then show ?case by simp
next
  case (Cons s vs)
  let ?st1 = "analyzeSide pd sel L s st"
  let ?LR = "lineReports pd sel L s"
  let ?isS = "\<lambda>rep. rtype rep = ''single'' \<and> idx \<in> set (rindices rep)"
  obtain p where p: "pinMapAt pd s = Some p" using Cons.prems(3) by auto
  have fin: "idx \<notin> snd (fold (analyzeSide pd sel L) vs ?st1)" using Cons.prems(2) by simp
  then have nc: "idx \<notin> snd ?st1" by (simp add: analyze_fold_covered)
  then have nc': "idx \<notin> snd st \<union> coveredBy ?LR" by (simp add: analyzeSide_shape)
  have lr: "filter ?isS ?LR = []"
    using lineReports_out[of _ pd sel L s] by (auto simp: filter_empty_conv)
  have "length (filter ?isS (fst ?st1)) = length (filter ?isS (fst st)) +
          (if side (getSideAndPhysCoords pd (Some m)) = s then 1 else 0)"
    using p lr singles_count[OF assms(2) nc' assms(4), of s] assms(3)
    by (simp add: analyzeSide_shape)
  moreover have "length (filter ?isS (fst (fold (analyzeSide pd sel L) vs ?st1))) =
      length (filter ?isS (fst ?st1)) + (if side (getSideAndPhysCoords pd (Some m)) \<in> set vs then 1 else 0)"
    using Cons.IH[OF _ fin] Cons.prems(1,3) by simp
  ultimately show ?case using Cons.prems(1) by auto
qed

section \<open>Lemmas about the pin configuration pass\<close>

subsection \<open>The diode direction\<close>

lemma ensureShield_dd [simp]: "diodeDirection (ensureShield s res) = diodeDirection res"
  by (simp add: ensureShield_def split: option.splits)

lemma updShield_dd [simp]: "diodeDirection (updShield s f res) = diodeDirection res"
  by (simp add: updShield_def split: option.splits)

lemma objKeys_empty [simp]: "(objKeys d = []) = (d = [])"
  by (simp add: objKeys_def)

lemma standardApply_dd [simp]: "diodeDirection (standardApply rg cg s res) = diodeDirection res"
  by (simp add: standardApply_def Let_def)

lemma fold_standardApply_dd [simp]:
  "diodeDirection (fold (standardApply rg cg) ts res) = diodeDirection res"
  by (induction ts arbitrary: res) simp_all





lemma targets_empty:
  "(length (if sideOfFile shields fn = ''common'' then shields else [sideOfFile shields fn]) = 0 \<and>
    sideOfFile shields fn = ''common'') = (shields = [])"
  by (auto simp: sideOfFile_def)

lemma targets_nonempty:
  "shields \<noteq> [] \<Longrightarrow> (if sideOfFile shields fn = ''common'' then shields else [sideOfFile shields fn]) \<noteq> []"
  by simp






subsection \<open>A \<open>gpios\<close> object always has a pin\<close>

lemma objSet_nonempty [simp]: "objSet k v d \<noteq> []"
  by (cases d) (auto split: if_splits)

lemma fold_objSet_nonempty: "d \<noteq> [] \<Longrightarrow> fold (\<lambda>e d. objSet (fst e) (snd e) d) es d \<noteq> []"
  by (induction es arbitrary: d) simp_all

lemma objAssign_nonempty: "src \<noteq> [] \<Longrightarrow> objAssign d src \<noteq> []"
  by (cases src) (simp_all add: objAssign_def fold_objSet_nonempty)

lemma insertKey_all:
  "list_all P ps \<Longrightarrow> P (s, p) \<Longrightarrow> list_all P (insertKey s p ps)"
  by (induction ps) auto

lemma pinMapSet_all:
  "list_all P ps \<Longrightarrow> P (s, p) \<Longrightarrow> list_all P (pinMapSet s p ps)"
  using insertKey_all[of P ps s p] by (auto simp: pinMapSet_def list_all_iff)

lemma ensureShield_gpios: "gpiosNonEmpty res \<Longrightarrow> gpiosNonEmpty (ensureShield s res)"
  by (auto simp: gpiosNonEmpty_def ensureShield_def intro: pinMapSet_all split: option.splits)

lemma updShield_gpios:
  assumes "gpiosNonEmpty res" "\<And>p. gpios p \<noteq> Some [] \<Longrightarrow> gpios (f p) \<noteq> Some []"
  shows "gpiosNonEmpty (updShield s f res)"
proof (cases "pinMapAt res s")
  case None
  then show ?thesis using assms(1) by (simp add: updShield_def)
next
  case (Some p)
  then have "(s, p) \<in> set (pinMap res)" by (simp add: pinMapAt_def map_of_SomeD)
  then have "gpios p \<noteq> Some []" using assms(1) by (auto simp: gpiosNonEmpty_def list_all_iff)
  then have "gpios (f p) \<noteq> Some []" by (rule assms(2))
  then show ?thesis using Some assms(1)
    by (auto simp: updShield_def gpiosNonEmpty_def intro: pinMapSet_all)
qed

lemma diodeDirection_update_gpios [simp]:
  "gpiosNonEmpty (res\<lparr>diodeDirection := d\<rparr>) = gpiosNonEmpty res"
  by (simp add: gpiosNonEmpty_def)

lemma standardApply_gpios: "gpiosNonEmpty res \<Longrightarrow> gpiosNonEmpty (standardApply rg cg s res)"
  by (simp add: standardApply_def Let_def ensureShield_gpios updShield_gpios)

lemma charlieApply_gpios: "gpiosNonEmpty res \<Longrightarrow> gpiosNonEmpty (charlieApply gp ig s res)"
  by (auto simp: charlieApply_def Let_def objKeys_def objAssign_nonempty
           intro!: updShield_gpios ensureShield_gpios split: list.splits)

lemma directApply_gpios: "gpiosNonEmpty res \<Longrightarrow> gpiosNonEmpty (directApply dg s res)"
  by (auto simp: directApply_def Let_def intro!: updShield_gpios ensureShield_gpios)

lemma fold_gpios:
  assumes "\<And>s res. gpiosNonEmpty res \<Longrightarrow> gpiosNonEmpty (f s res)"
  shows "gpiosNonEmpty res \<Longrightarrow> gpiosNonEmpty (fold f ts res)"
  by (induction ts arbitrary: res) (simp_all add: assms)

lemma pinConfigStep_gpios: "gpiosNonEmpty res \<Longrightarrow> gpiosNonEmpty (pinConfigStep shields f res)"
  unfolding pinConfigStep_def Let_def
  by (auto intro!: fold_gpios standardApply_gpios charlieApply_gpios directApply_gpios
           split: option.splits)

lemma findAndParsePinConfig_gpios:
  "gpiosNonEmpty res \<Longrightarrow> gpiosNonEmpty (findAndParsePinConfig shields files res)"
  unfolding findAndParsePinConfig_def
  by (rule fold_gpios) (rule pinConfigStep_gpios)

lemma gpiosNonEmpty_present:
  assumes "gpiosNonEmpty res" "pinMapAt res s = Some p"
  shows "nonEmptyObj (gpios p) \<longleftrightarrow> gpios p \<noteq> None"
proof -
  from assms(2) have "(s, p) \<in> set (pinMap res)" by (simp add: pinMapAt_def map_of_SomeD)
  with assms(1) have "gpios p \<noteq> Some []" by (auto simp: gpiosNonEmpty_def list_all_iff)
  then show ?thesis by (cases "gpios p") (auto simp: nonEmptyObj_def objKeys_def)
qed

section \<open>The owner of a key\<close>

lemma validShields_pinMapAt: "s \<in> set (validShields pd) \<Longrightarrow> \<exists>p. pinMapAt pd s = Some p \<and> hasPins p"
  by (auto simp: validShields_def split: option.splits)

lemma sideStep_cases:
  assumes "pinMapAt pd s \<noteq> None"
  shows "sideStep pd m s acc =
     (if qualifies pd m s \<and> int (offsetSum pd s) > snd acc
      then (\<lparr>side = s, physC = c m - shieldColOffset pd s, physR = r m - shieldRowOffset pd s\<rparr>, int (offsetSum pd s))
      else acc)"
  using assms
  by (auto simp: sideStep_def qualifies_def offsetSum_def shieldColOffset_def shieldRowOffset_def Let_def split: option.splits)

lemma sideStep_fold:
  assumes "\<forall>s \<in> set vs. pinMapAt pd s \<noteq> None"
  shows "snd acc \<le> snd (fold (sideStep pd m) vs acc) \<and>
         (\<forall>t \<in> set vs. qualifies pd m t \<longrightarrow> int (offsetSum pd t) \<le> snd (fold (sideStep pd m) vs acc)) \<and>
         (fold (sideStep pd m) vs acc = acc \<or>
          (\<exists>s \<in> set vs. qualifies pd m s \<and> snd acc < int (offsetSum pd s) \<and>
             fold (sideStep pd m) vs acc =
               (\<lparr>side = s, physC = c m - shieldColOffset pd s, physR = r m - shieldRowOffset pd s\<rparr>,
                int (offsetSum pd s)) \<and>
             (\<forall>t \<in> set (takeWhile (\<lambda>t. t \<noteq> s) vs). qualifies pd m t \<longrightarrow> offsetSum pd t < offsetSum pd s)))"
  using assms
proof (induction vs arbitrary: acc)
  case Nil
  then show ?case by simp
next
  case (Cons x xs)
  let ?a1 = "sideStep pd m x acc"
  let ?res = "fold (sideStep pd m) xs ?a1"
  have px: "pinMapAt pd x \<noteq> None" using Cons.prems by simp
  have pxs: "\<forall>s \<in> set xs. pinMapAt pd s \<noteq> None" using Cons.prems by simp
  note ih = Cons.IH[OF pxs, of ?a1]
  have step: "?a1 = (if qualifies pd m x \<and> int (offsetSum pd x) > snd acc
      then (\<lparr>side = x, physC = c m - shieldColOffset pd x, physR = r m - shieldRowOffset pd x\<rparr>, int (offsetSum pd x))
      else acc)" by (rule sideStep_cases[OF px])
  have mono1: "snd acc \<le> snd ?a1" using step by auto
  have qx: "qualifies pd m x \<longrightarrow> int (offsetSum pd x) \<le> snd ?a1" using step by auto
  have A: "snd acc \<le> snd ?res" using ih mono1 by linarith
  have B: "\<forall>t \<in> set (x # xs). qualifies pd m t \<longrightarrow> int (offsetSum pd t) \<le> snd ?res"
    using ih qx by auto
  have C: "?res = acc \<or>
          (\<exists>s \<in> set (x # xs). qualifies pd m s \<and> snd acc < int (offsetSum pd s) \<and>
             ?res = (\<lparr>side = s, physC = c m - shieldColOffset pd s, physR = r m - shieldRowOffset pd s\<rparr>,
                int (offsetSum pd s)) \<and>
             (\<forall>t \<in> set (takeWhile (\<lambda>t. t \<noteq> s) (x # xs)). qualifies pd m t \<longrightarrow> offsetSum pd t < offsetSum pd s))"
  proof -
    from ih have "?res = ?a1 \<or> (\<exists>s \<in> set xs. qualifies pd m s \<and> snd ?a1 < int (offsetSum pd s) \<and>
             ?res = (\<lparr>side = s, physC = c m - shieldColOffset pd s, physR = r m - shieldRowOffset pd s\<rparr>,
                int (offsetSum pd s)) \<and>
             (\<forall>t \<in> set (takeWhile (\<lambda>t. t \<noteq> s) xs). qualifies pd m t \<longrightarrow> offsetSum pd t < offsetSum pd s))"
      by blast
    then show ?thesis
    proof
      assume e: "?res = ?a1"
      show ?thesis
      proof (cases "qualifies pd m x \<and> int (offsetSum pd x) > snd acc")
        case True
        then have "?a1 = (\<lparr>side = x, physC = c m - shieldColOffset pd x, physR = r m - shieldRowOffset pd x\<rparr>, int (offsetSum pd x))"
          using step by auto
        then have "?res = (\<lparr>side = x, physC = c m - shieldColOffset pd x, physR = r m - shieldRowOffset pd x\<rparr>, int (offsetSum pd x))"
          using e by simp
        with True show ?thesis by (intro disjI2 bexI[of _ x]) auto
      next
        case False
        then have "?a1 = acc" using step by auto
        then have "?res = acc" using e by simp
        then show ?thesis by simp
      qed
    next
      assume "\<exists>s \<in> set xs. qualifies pd m s \<and> snd ?a1 < int (offsetSum pd s) \<and>
             ?res = (\<lparr>side = s, physC = c m - shieldColOffset pd s, physR = r m - shieldRowOffset pd s\<rparr>,
                int (offsetSum pd s)) \<and>
             (\<forall>t \<in> set (takeWhile (\<lambda>t. t \<noteq> s) xs). qualifies pd m t \<longrightarrow> offsetSum pd t < offsetSum pd s)"
      then obtain s where s: "s \<in> set xs" "qualifies pd m s" "snd ?a1 < int (offsetSum pd s)"
         "?res = (\<lparr>side = s, physC = c m - shieldColOffset pd s, physR = r m - shieldRowOffset pd s\<rparr>,
                int (offsetSum pd s))"
         "\<forall>t \<in> set (takeWhile (\<lambda>t. t \<noteq> s) xs). qualifies pd m t \<longrightarrow> offsetSum pd t < offsetSum pd s"
        by blast
      have lt: "snd acc < int (offsetSum pd s)" using s(3) mono1 by linarith
      have tw: "\<forall>t \<in> set (takeWhile (\<lambda>t. t \<noteq> s) (x # xs)). qualifies pd m t \<longrightarrow> offsetSum pd t < offsetSum pd s"
      proof (cases "x = s")
        case True then show ?thesis by simp
      next
        case False
        have "qualifies pd m x \<longrightarrow> offsetSum pd x < offsetSum pd s" using qx s(3) by auto
        with False s(5) show ?thesis by auto
      qed
      show ?thesis using s lt tw by (intro disjI2 bexI[of _ s]) auto
    qed
  qed
  show ?case using A B C by simp
qed

lemma takeWhile_filter_first:
  "P s \<Longrightarrow> takeWhile (\<lambda>t. t \<noteq> s) (filter P xs) = filter P (takeWhile (\<lambda>t. t \<noteq> s) xs)"
  by (induction xs) auto

lemma getSideAndPhysCoords_valid:
  assumes "validShields pd \<noteq> []"
  shows "side (getSideAndPhysCoords pd mo) \<in> set (validShields pd)"
proof -
  have f: "firstShield (validShields pd) \<in> set (validShields pd)"
    using assms by (cases "validShields pd") simp_all
  show ?thesis
  proof (cases mo)
    case None
    then show ?thesis using f by (simp add: getSideAndPhysCoords_def)
  next
    case (Some m)
    let ?acc = "(\<lparr>side = firstShield (validShields pd), physC = c m, physR = r m\<rparr>, - 1 :: int)"
    have pm: "\<forall>s \<in> set (validShields pd). pinMapAt pd s \<noteq> None"
      using validShields_pinMapAt by fastforce
    from sideStep_fold[OF pm, of ?acc m]
    have "fold (sideStep pd m) (validShields pd) ?acc = ?acc \<or>
          (\<exists>s \<in> set (validShields pd). side (fst (fold (sideStep pd m) (validShields pd) ?acc)) = s)"
      by auto
    then show ?thesis using f Some by (auto simp: getSideAndPhysCoords_def)
  qed
qed

text \<open>
  C1 (as amended). For a key with a matrix entry, let \<open>Q\<close> be the valid shields whose
  column and row offsets are both at most the key's logical column and row, in
  \<open>validShields\<close> order. If \<open>Q\<close> is not empty, the owner is a member of \<open>Q\<close> with the
  largest offset sum (the first such in \<open>Q\<close>), and the local coordinates are the logical
  ones minus that shield's offsets. If \<open>Q\<close> is empty, the owner is the first valid
  shield and the coordinates are the logical ones unchanged.
\<close>

theorem getSideAndPhysCoords_owner:
  assumes "p = getSideAndPhysCoords pd (Some m)"
    and "Q = filter (qualifies pd m) (validShields pd)"
  shows "(Q \<noteq> [] \<longrightarrow>
            side p \<in> set Q \<and>
            (\<forall>t \<in> set Q. offsetSum pd t \<le> offsetSum pd (side p)) \<and>
            (\<forall>t \<in> set (takeWhile (\<lambda>t. t \<noteq> side p) Q). offsetSum pd t < offsetSum pd (side p)) \<and>
            physC p + shieldColOffset pd (side p) = c m \<and>
            physR p + shieldRowOffset pd (side p) = r m) \<and>
         (Q = [] \<longrightarrow> p = \<lparr>side = firstShield (validShields pd), physC = c m, physR = r m\<rparr>)"
proof -
  let ?vs = "validShields pd"
  let ?acc = "(\<lparr>side = firstShield ?vs, physC = c m, physR = r m\<rparr>, - 1 :: int)"
  let ?res = "fold (sideStep pd m) ?vs ?acc"
  have pm: "\<forall>s \<in> set ?vs. pinMapAt pd s \<noteq> None" using validShields_pinMapAt by fastforce
  note F = sideStep_fold[OF pm, of ?acc m]
  have p: "p = fst ?res" using assms(1) by (simp add: getSideAndPhysCoords_def)
  have none: "Q = [] \<longrightarrow> p = \<lparr>side = firstShield ?vs, physC = c m, physR = r m\<rparr>"
  proof
    assume "Q = []"
    then have "\<forall>s \<in> set ?vs. \<not> qualifies pd m s" using assms(2) by (auto simp: filter_empty_conv)
    with F have "?res = ?acc" by blast
    then show "p = \<lparr>side = firstShield ?vs, physC = c m, physR = r m\<rparr>" using p by simp
  qed
  have some: "Q \<noteq> [] \<longrightarrow>
            side p \<in> set Q \<and>
            (\<forall>t \<in> set Q. offsetSum pd t \<le> offsetSum pd (side p)) \<and>
            (\<forall>t \<in> set (takeWhile (\<lambda>t. t \<noteq> side p) Q). offsetSum pd t < offsetSum pd (side p)) \<and>
            physC p + shieldColOffset pd (side p) = c m \<and>
            physR p + shieldRowOffset pd (side p) = r m"
  proof
    assume "Q \<noteq> []"
    then obtain t where t: "t \<in> set ?vs" "qualifies pd m t" using assms(2) by (auto simp: filter_empty_conv)
    with F have "0 \<le> snd ?res" by fastforce
    then have "?res \<noteq> ?acc" by auto
    with F obtain s where s: "s \<in> set ?vs" "qualifies pd m s"
       "?res = (\<lparr>side = s, physC = c m - shieldColOffset pd s, physR = r m - shieldRowOffset pd s\<rparr>, int (offsetSum pd s))"
       "\<forall>t \<in> set (takeWhile (\<lambda>t. t \<noteq> s) ?vs). qualifies pd m t \<longrightarrow> offsetSum pd t < offsetSum pd s"
      by blast
    have sp: "side p = s" "physC p = c m - shieldColOffset pd s" "physR p = r m - shieldRowOffset pd s"
      using p s(3) by simp_all
    have mx: "\<forall>t \<in> set Q. offsetSum pd t \<le> offsetSum pd s"
      using F s(3) assms(2) by auto
    have tw: "\<forall>t \<in> set (takeWhile (\<lambda>t. t \<noteq> s) Q). offsetSum pd t < offsetSum pd s"
    proof
      fix t assume "t \<in> set (takeWhile (\<lambda>t. t \<noteq> s) Q)"
      then have "t \<in> set (filter (qualifies pd m) (takeWhile (\<lambda>t. t \<noteq> s) ?vs))"
        using assms(2) takeWhile_filter_first[of "qualifies pd m" s ?vs] s(2) by simp
      then show "offsetSum pd t < offsetSum pd s" using s(4) by auto
    qed
    show "side p \<in> set Q \<and>
            (\<forall>t \<in> set Q. offsetSum pd t \<le> offsetSum pd (side p)) \<and>
            (\<forall>t \<in> set (takeWhile (\<lambda>t. t \<noteq> side p) Q). offsetSum pd t < offsetSum pd (side p)) \<and>
            physC p + shieldColOffset pd (side p) = c m \<and>
            physR p + shieldRowOffset pd (side p) = r m"
      using sp s(1,2) mx tw assms(2) by (auto simp: qualifies_def)
  qed
  show ?thesis using none some by blast
qed

text \<open>
  The key at logical row 2, column 8 of the split keyboard: both halves qualify, the
  right one (offset 6) wins, and the key is at local row 2, column 2. With pins on the
  right half only, no shield qualifies for the key at row 0, column 0.
\<close>

theorem getSideAndPhysCoords_owner_witness:
  "filter (qualifies exSplit \<lparr>r = 2, c = 8\<rparr>) (validShields exSplit) = [''zaru_l'', ''zaru_r''] \<and>
   side (getSideAndPhysCoords exSplit (Some \<lparr>r = 2, c = 8\<rparr>)) = ''zaru_r'' \<and>
   physC (getSideAndPhysCoords exSplit (Some \<lparr>r = 2, c = 8\<rparr>)) + 6 = 8 \<and>
   physR (getSideAndPhysCoords exSplit (Some \<lparr>r = 2, c = 8\<rparr>)) + 0 = 2 \<and>
   filter (qualifies exRightOnly \<lparr>r = 0, c = 0\<rparr>) (validShields exRightOnly) = [] \<and>
   getSideAndPhysCoords exRightOnly (Some \<lparr>r = 0, c = 0\<rparr>) =
     \<lparr>side = ''zaru_r'', physC = 0, physR = 0\<rparr>"
proof -
  let ?m = "\<lparr>r = 2, c = 8\<rparr> :: matrixEntry"
  let ?p = "getSideAndPhysCoords exSplit (Some ?m)"
  have q: "filter (qualifies exSplit ?m) (validShields exSplit) = [''zaru_l'', ''zaru_r'']"
    by code_simp
  have sums: "offsetSum exSplit ''zaru_l'' = 0" "offsetSum exSplit ''zaru_r'' = 6"
             "shieldColOffset exSplit ''zaru_r'' = 6" "shieldRowOffset exSplit ''zaru_r'' = 0"
    by code_simp+
  note T = getSideAndPhysCoords_owner[OF refl q[symmetric]]
  from T have mem: "side ?p \<in> set [''zaru_l'', ''zaru_r'']"
    and mx: "\<forall>t \<in> set [''zaru_l'', ''zaru_r'']. offsetSum exSplit t \<le> offsetSum exSplit (side ?p)"
    and pc: "physC ?p + shieldColOffset exSplit (side ?p) = c ?m"
    and pr: "physR ?p + shieldRowOffset exSplit (side ?p) = r ?m"
    by simp_all
  from mx have "offsetSum exSplit ''zaru_r'' \<le> offsetSum exSplit (side ?p)" by simp
  with mem sums have s: "side ?p = ''zaru_r''" by auto
  have e: "[] = filter (qualifies exRightOnly \<lparr>r = 0, c = 0\<rparr>) (validShields exRightOnly)"
    by code_simp
  have fs: "firstShield (validShields exRightOnly) = ''zaru_r''" by code_simp
  from getSideAndPhysCoords_owner[OF refl e]
  have n: "getSideAndPhysCoords exRightOnly (Some \<lparr>r = 0, c = 0\<rparr>) =
     \<lparr>side = ''zaru_r'', physC = 0, physR = 0\<rparr>"
    by (simp add: fs)
  show ?thesis using q s pc pr sums e[symmetric] n by simp
qed

text \<open>
  Where the claim as stated fails: with pins on the right half only, the key at logical
  row 0, column 0 is given to the right half, whose column offset 6 is larger than the
  key's column, and its coordinates are left as they are.
\<close>

theorem getSideAndPhysCoords_owner_counterexample:
  "getSideAndPhysCoords exRightOnly (Some \<lparr>r = 0, c = 0\<rparr>) = \<lparr>side = ''zaru_r'', physC = 0, physR = 0\<rparr> \<and>
   shieldColOffset exRightOnly ''zaru_r'' = 6 \<and>
   \<not> qualifies exRightOnly \<lparr>r = 0, c = 0\<rparr> ''zaru_r''"
  by code_simp

section \<open>The diode direction after the pin configuration pass\<close>




section \<open>Standard matrix: row and column reports\<close>

lemma lineFails_getCount:
  "lineFails idxs (objGet d k) = (getCount d k > 0 \<and> ratioOver (length idxs) (getCount d k) 0.6)"
  by (simp add: lineFails_def getCount_def split: option.splits)

lemma rowStep_Row:
  "Row s k pin idxs \<in> set (fst (rowStep s' p g cnt k' ([], {}))) \<longleftrightarrow>
     s = s' \<and> k = k' \<and> objGet (rows g) k = Some idxs \<and> lineFails idxs (objGet (rows cnt) k) \<and>
     pin = linePin (row p) k"
  by (auto simp: rowStep_def split: option.splits)

lemma colStep_Col:
  "Col s k pin idxs \<in> set (fst (colStep s' p g cnt k' ([], {}))) \<longleftrightarrow>
     s = s' \<and> k = k' \<and> objGet (cols g) k = Some idxs \<and> lineFails idxs (objGet (cols cnt) k) \<and>
     pin = linePin (col p) k"
  by (auto simp: colStep_def split: option.splits)

lemma rowStep_no_Col: "Col s k pin idxs \<notin> set (fst (rowStep s' p g cnt k' ([], {})))"
  by (auto simp: rowStep_def split: option.splits)

lemma colStep_no_Row: "Row s k pin idxs \<notin> set (fst (colStep s' p g cnt k' ([], {})))"
  by (auto simp: colStep_def split: option.splits)

lemma standard_lineReports:
  assumes "s \<in> set (validShields pd)" "pinMapAt pd s = Some p" "gpios p = None" "direct p = None"
  shows "(Row s k pin idxs \<in> set (lineReports pd sel (accumulate pd sel) s) \<longleftrightarrow>
            failRatioOver pd sel (\<lambda>q. side q = s \<and> physR q = k) 0.6 \<and>
            idxs = filter (keyAt pd (\<lambda>q. side q = s \<and> physR q = k)) sel \<and> pin = linePin (row p) k)"
    and "(Col s k pin idxs \<in> set (lineReports pd sel (accumulate pd sel) s) \<longleftrightarrow>
            failRatioOver pd sel (\<lambda>q. side q = s \<and> physC q = k) 0.6 \<and>
            idxs = filter (keyAt pd (\<lambda>q. side q = s \<and> physC q = k)) sel \<and> pin = linePin (col p) k)"
proof -
  let ?L = "accumulate pd sel"
  from accumulate_valid[OF assms(1), of sel] obtain g cnt where
    a: "groups ?L s = Some g" "counts ?L s = Some cnt"
       "\<forall>k. objGet (rows g) k =
        (if filter (keyAt pd (\<lambda>q. side q = s \<and> physR q = k)) sel = [] then None
         else Some (filter (keyAt pd (\<lambda>q. side q = s \<and> physR q = k)) sel))"
       "\<forall>k. objGet (cols g) k =
        (if filter (keyAt pd (\<lambda>q. side q = s \<and> physC q = k)) sel = [] then None
         else Some (filter (keyAt pd (\<lambda>q. side q = s \<and> physC q = k)) sel))"
       "\<forall>k. getCount (rows cnt) k = length (keysWhere pd (\<lambda>q. side q = s \<and> physR q = k))"
       "\<forall>k. getCount (cols cnt) k = length (keysWhere pd (\<lambda>q. side q = s \<and> physC q = k))"
    by blast
  have LR: "lineReports pd sel ?L s =
       fst (interruptPass pd sel s p ([], {})) @
       concat (map (\<lambda>k. fst (rowStep s p g cnt k ([], {}))) (objKeys (rows g))) @
       concat (map (\<lambda>k. fst (colStep s p g cnt k ([], {}))) (objKeys (cols g)))"
    using assms(2-4) a(1,2)
    by (simp add: lineReports_def modePass_def standardPass_def standardPass_split)
  have nI: "Row s k pin idxs \<notin> set (fst (interruptPass pd sel s p ([], {})))"
           "Col s k pin idxs \<notin> set (fst (interruptPass pd sel s p ([], {})))"
    using interruptPass_out[of _ pd sel s p] by fastforce+
  have "Row s k pin idxs \<in> set (lineReports pd sel ?L s) \<longleftrightarrow>
        k \<in> set (objKeys (rows g)) \<and> objGet (rows g) k = Some idxs \<and>
        lineFails idxs (objGet (rows cnt) k) \<and> pin = linePin (row p) k"
    using nI by (auto simp: LR rowStep_Row colStep_no_Row)
  also have "\<dots> \<longleftrightarrow> failRatioOver pd sel (\<lambda>q. side q = s \<and> physR q = k) 0.6 \<and>
            idxs = filter (keyAt pd (\<lambda>q. side q = s \<and> physR q = k)) sel \<and> pin = linePin (row p) k"
    using a(3,5) by (auto simp: objKeys_mem lineFails_getCount ratioOver_def failRatioOver_def)
  finally show "(Row s k pin idxs \<in> set (lineReports pd sel (accumulate pd sel) s) \<longleftrightarrow>
            failRatioOver pd sel (\<lambda>q. side q = s \<and> physR q = k) 0.6 \<and>
            idxs = filter (keyAt pd (\<lambda>q. side q = s \<and> physR q = k)) sel \<and> pin = linePin (row p) k)" .
  have "Col s k pin idxs \<in> set (lineReports pd sel ?L s) \<longleftrightarrow>
        k \<in> set (objKeys (cols g)) \<and> objGet (cols g) k = Some idxs \<and>
        lineFails idxs (objGet (cols cnt) k) \<and> pin = linePin (col p) k"
    using nI by (auto simp: LR colStep_Col rowStep_no_Col)
  also have "\<dots> \<longleftrightarrow> failRatioOver pd sel (\<lambda>q. side q = s \<and> physC q = k) 0.6 \<and>
            idxs = filter (keyAt pd (\<lambda>q. side q = s \<and> physC q = k)) sel \<and> pin = linePin (col p) k"
    using a(4,6) by (auto simp: objKeys_mem lineFails_getCount ratioOver_def failRatioOver_def)
  finally show "(Col s k pin idxs \<in> set (lineReports pd sel (accumulate pd sel) s) \<longleftrightarrow>
            failRatioOver pd sel (\<lambda>q. side q = s \<and> physC q = k) 0.6 \<and>
            idxs = filter (keyAt pd (\<lambda>q. side q = s \<and> physC q = k)) sel \<and> pin = linePin (col p) k)" .
qed

text \<open>
  C2. On a valid shield without \<open>gpios\<close> and without \<open>direct\<close> pins (a standard matrix),
  \<open>analyzeFailures\<close> emits a \<open>row\<close> report for the physical row \<open>k\<close> if and only if
  the row has keys and the selected keys of the row are more than 0.6 of them, and, with
  no reference to the rows, a \<open>col\<close> report for the physical column \<open>k'\<close> if and only if
  the same holds of the column. A report lists the selected keys of its line and names
  the line's pin.
\<close>

theorem standard_row_col_reports:
  assumes "s \<in> set (validShields pd)" "pinMapAt pd s = Some p" "gpios p = None" "direct p = None"
  shows "((\<exists>pin idxs. Row s k pin idxs \<in> set (analyzeFailures pd sel)) \<longleftrightarrow>
            failRatioOver pd sel (\<lambda>q. side q = s \<and> physR q = k) 0.6) \<and>
         ((\<exists>pin idxs. Col s k' pin idxs \<in> set (analyzeFailures pd sel)) \<longleftrightarrow>
            failRatioOver pd sel (\<lambda>q. side q = s \<and> physC q = k') 0.6) \<and>
         (\<forall>pin idxs. Row s k pin idxs \<in> set (analyzeFailures pd sel) \<longrightarrow>
            idxs = filter (keyAt pd (\<lambda>q. side q = s \<and> physR q = k)) sel \<and> pin = linePin (row p) k) \<and>
         (\<forall>pin idxs. Col s k' pin idxs \<in> set (analyzeFailures pd sel) \<longrightarrow>
            idxs = filter (keyAt pd (\<lambda>q. side q = s \<and> physC q = k')) sel \<and> pin = linePin (col p) k')"
proof -
  have r: "Row s k pin idxs \<in> set (analyzeFailures pd sel) \<longleftrightarrow>
            failRatioOver pd sel (\<lambda>q. side q = s \<and> physR q = k) 0.6 \<and>
            idxs = filter (keyAt pd (\<lambda>q. side q = s \<and> physR q = k)) sel \<and> pin = linePin (row p) k"
    for pin idxs
    using analyzeFailures_line_mem[of "Row s k pin idxs" pd sel] assms(1)
          standard_lineReports(1)[OF assms, of k pin idxs sel] by simp
  have c: "Col s k' pin idxs \<in> set (analyzeFailures pd sel) \<longleftrightarrow>
            failRatioOver pd sel (\<lambda>q. side q = s \<and> physC q = k') 0.6 \<and>
            idxs = filter (keyAt pd (\<lambda>q. side q = s \<and> physC q = k')) sel \<and> pin = linePin (col p) k'"
    for pin idxs
    using analyzeFailures_line_mem[of "Col s k' pin idxs" pd sel] assms(1)
          standard_lineReports(2)[OF assms, of k' pin idxs sel] by simp
  show ?thesis using r c by blast
qed

text \<open>
  Row 0 of the example has four keys. With two of them selected (ratio 0.5) there is no
  \<open>row\<close> report, with three (0.75) there is one; key 2 is then in the \<open>row\<close> report of
  row 0 and in the \<open>col\<close> report of column 2.
\<close>

theorem standard_row_col_reports_witness:
  "\<not> (\<exists>pin idxs. Row ''kb'' 0 pin idxs \<in> set (analyzeFailures exStd [0, 1])) \<and>
   Row ''kb'' 0 (Some ''gpio0 1'') [0, 1, 2] \<in> set (analyzeFailures exStd [0, 1, 2]) \<and>
   Col ''kb'' 2 (Some ''gpio0 5'') [2] \<in> set (analyzeFailures exStd [0, 1, 2])"
proof -
  have v: "''kb'' \<in> set (validShields exStd)" by code_simp
  have p: "pinMapAt exStd ''kb'' = Some stdPins" by code_simp
  have g: "gpios stdPins = None" "direct stdPins = None" by code_simp+
  note A = standard_row_col_reports[where k = 0 and k' = 2 and sel = "[0, 1]", OF v p g]
  note B = standard_row_col_reports[where k = 0 and k' = 2 and sel = "[0, 1, 2]", OF v p g]
  have r1: "\<not> failRatioOver exStd [0, 1] (\<lambda>q. side q = ''kb'' \<and> physR q = 0) 0.6" by code_simp
  have r2: "failRatioOver exStd [0, 1, 2] (\<lambda>q. side q = ''kb'' \<and> physR q = 0) 0.6" by code_simp
  have r3: "failRatioOver exStd [0, 1, 2] (\<lambda>q. side q = ''kb'' \<and> physC q = 2) 0.6" by code_simp
  have f1: "filter (keyAt exStd (\<lambda>q. side q = ''kb'' \<and> physR q = 0)) [0, 1, 2] = [0, 1, 2]" by code_simp
  have f2: "filter (keyAt exStd (\<lambda>q. side q = ''kb'' \<and> physC q = 2)) [0, 1, 2] = [2]" by code_simp
  have l: "linePin (row stdPins) 0 = Some ''gpio0 1''" "linePin (col stdPins) 2 = Some ''gpio0 5''"
    by code_simp+
  note B' = B[unfolded f1 f2 l]
  from A r1 have 1: "\<not> (\<exists>pin idxs. Row ''kb'' 0 pin idxs \<in> set (analyzeFailures exStd [0, 1]))"
    by blast
  from B' r2 obtain pin idxs where "Row ''kb'' 0 pin idxs \<in> set (analyzeFailures exStd [0, 1, 2])"
    by blast
  with B' have 2: "Row ''kb'' 0 (Some ''gpio0 1'') [0, 1, 2] \<in> set (analyzeFailures exStd [0, 1, 2])"
    by blast
  from B' r3 obtain pin' idxs' where "Col ''kb'' 2 pin' idxs' \<in> set (analyzeFailures exStd [0, 1, 2])"
    by blast
  with B' have 3: "Col ''kb'' 2 (Some ''gpio0 5'') [2] \<in> set (analyzeFailures exStd [0, 1, 2])"
    by blast
  show ?thesis using 1 2 3 by blast
qed

section \<open>Charlieplex reports\<close>

lemma charlieStep_Charlie:
  "Charlie s k pin rf idxs \<in> set (fst (charlieStep pd sel s' gp cc ct k' ([], {}))) \<longleftrightarrow>
     s = s' \<and> k = k' \<and> (inFail cc ct k \<or> outFail cc ct k) \<and>
     rf = roleOf (inFail cc ct k) (outFail cc ct k) \<and>
     idxs = filter (\<lambda>idx. idx \<in> set sel) (keysWhere pd (\<lambda>q. side q = s \<and> roleMatch rf k q)) \<and>
     pin = pinOrUnknown gp k"
  by (auto simp: charlieStep_def Let_def)

lemma set_setFrom [simp]: "set (setFrom xs) = set xs"
  by (simp add: setFrom_def)

lemma getCount_pos_key: "getCount d k > 0 \<Longrightarrow> k \<in> set (objKeys d)"
  by (auto simp: getCount_def objKeys_mem split: option.splits)

text \<open>
  C3. On a valid shield with \<open>gpios\<close>, for the ordinal \<open>k\<close>: the row role is flagged
  (\<open>inF\<close>) when keys use \<open>k\<close> as their row and the selected ones are more than 0.6 of
  them, the column role (\<open>outF\<close>) likewise, each computed on its own. A \<open>charlie\<close>
  report for \<open>k\<close> is emitted if and only if a role is flagged; its role is \<open>in\<close> when only
  the row role is flagged, \<open>out\<close> when only the column role is, \<open>both\<close> when both are; its
  indices are the selected keys that use \<open>k\<close> in the flagged role or roles.
\<close>

theorem charlie_reports:
  assumes "s \<in> set (validShields pd)" "pinMapAt pd s = Some p" "gpios p = Some gp"
    and "inF = failRatioOver pd sel (\<lambda>q. side q = s \<and> physR q = k) 0.6"
    and "outF = failRatioOver pd sel (\<lambda>q. side q = s \<and> physC q = k) 0.6"
  shows "((\<exists>pin rf idxs. Charlie s k pin rf idxs \<in> set (analyzeFailures pd sel)) \<longleftrightarrow> inF \<or> outF) \<and>
         (\<forall>pin rf idxs. Charlie s k pin rf idxs \<in> set (analyzeFailures pd sel) \<longrightarrow>
            (inF \<and> \<not> outF \<longrightarrow> rf = RoleIn \<and>
               idxs = filter (\<lambda>idx. idx \<in> set sel) (keysWhere pd (\<lambda>q. side q = s \<and> physR q = k))) \<and>
            (\<not> inF \<and> outF \<longrightarrow> rf = RoleOut \<and>
               idxs = filter (\<lambda>idx. idx \<in> set sel) (keysWhere pd (\<lambda>q. side q = s \<and> physC q = k))) \<and>
            (inF \<and> outF \<longrightarrow> rf = RoleBoth \<and>
               idxs = filter (\<lambda>idx. idx \<in> set sel)
                        (keysWhere pd (\<lambda>q. side q = s \<and> (physR q = k \<or> physC q = k)))) \<and>
            pin = pinOrUnknown gp k)"
proof -
  let ?L = "accumulate pd sel"
  have hg: "hasGpios pd s" using assms(2,3) by (simp add: hasGpios_def)
  from accumulate_valid[OF assms(1), of sel] hg obtain cc ct where
    a: "charlieCounts ?L s = Some cc" "charlieTotals ?L s = Some ct"
       "\<forall>k. getCount (roleIn ct) k = length (keysWhere pd (\<lambda>q. side q = s \<and> physR q = k))"
       "\<forall>k. getCount (roleOut ct) k = length (keysWhere pd (\<lambda>q. side q = s \<and> physC q = k))"
       "\<forall>k. getCount (roleIn cc) k = length (filter (keyAt pd (\<lambda>q. side q = s \<and> physR q = k)) sel)"
       "\<forall>k. getCount (roleOut cc) k = length (filter (keyAt pd (\<lambda>q. side q = s \<and> physC q = k)) sel)"
    by blast
  have inF: "inFail cc ct k = inF"
    using a(3,5) assms(4) by (simp add: inFail_def failRatioOver_def ratioOver_def)
  have outF: "outFail cc ct k = outF"
    using a(4,6) assms(5) by (simp add: outFail_def failRatioOver_def ratioOver_def)
  let ?all = "setFrom (objKeys (roleIn ct) @ objKeys (roleOut ct))"
  have LR: "lineReports pd sel ?L s =
       fst (interruptPass pd sel s p ([], {})) @
       concat (map (\<lambda>k. fst (charlieStep pd sel s gp cc ct k ([], {}))) ?all)"
    using assms(2,3) a(1,2)
    by (simp add: lineReports_def modePass_def charliePass_def emitter_fold(2)[OF charlieStep_emitter])
  have nI: "Charlie s k pin rf idxs \<notin> set (fst (interruptPass pd sel s p ([], {})))" for pin rf idxs
    using interruptPass_out[of _ pd sel s p] by fastforce
  have key: "inF \<or> outF \<Longrightarrow> k \<in> set ?all"
  proof -
    assume "inF \<or> outF"
    then have "getCount (roleIn ct) k > 0 \<or> getCount (roleOut ct) k > 0"
      using inF outF by (auto simp: inFail_def outFail_def)
    then show ?thesis using getCount_pos_key by auto
  qed
  have mem: "Charlie s k pin rf idxs \<in> set (analyzeFailures pd sel) \<longleftrightarrow>
       (inF \<or> outF) \<and> rf = roleOf inF outF \<and>
       idxs = filter (\<lambda>idx. idx \<in> set sel) (keysWhere pd (\<lambda>q. side q = s \<and> roleMatch rf k q)) \<and>
       pin = pinOrUnknown gp k" for pin rf idxs
  proof -
    have "Charlie s k pin rf idxs \<in> set (analyzeFailures pd sel) \<longleftrightarrow>
          Charlie s k pin rf idxs \<in> set (lineReports pd sel ?L s)"
      using analyzeFailures_line_mem[of "Charlie s k pin rf idxs" pd sel] assms(1) by simp
    also have "\<dots> \<longleftrightarrow> k \<in> set ?all \<and> (inF \<or> outF) \<and> rf = roleOf inF outF \<and>
       idxs = filter (\<lambda>idx. idx \<in> set sel) (keysWhere pd (\<lambda>q. side q = s \<and> roleMatch rf k q)) \<and>
       pin = pinOrUnknown gp k"
      using nI inF outF by (auto simp: LR charlieStep_Charlie)
    finally show ?thesis using key by blast
  qed
  have rm: "roleMatch RoleIn k q = (physR q = k)" "roleMatch RoleOut k q = (physC q = k)"
           "roleMatch RoleBoth k q = (physR q = k \<or> physC q = k)" for q
    by (simp_all add: roleMatch_def)
  have 1: "(\<exists>pin rf idxs. Charlie s k pin rf idxs \<in> set (analyzeFailures pd sel)) \<longleftrightarrow> inF \<or> outF"
    unfolding mem by blast
  have 2: "(inF \<and> \<not> outF \<longrightarrow> rf = RoleIn \<and>
               idxs = filter (\<lambda>idx. idx \<in> set sel) (keysWhere pd (\<lambda>q. side q = s \<and> physR q = k))) \<and>
            (\<not> inF \<and> outF \<longrightarrow> rf = RoleOut \<and>
               idxs = filter (\<lambda>idx. idx \<in> set sel) (keysWhere pd (\<lambda>q. side q = s \<and> physC q = k))) \<and>
            (inF \<and> outF \<longrightarrow> rf = RoleBoth \<and>
               idxs = filter (\<lambda>idx. idx \<in> set sel)
                        (keysWhere pd (\<lambda>q. side q = s \<and> (physR q = k \<or> physC q = k)))) \<and>
            pin = pinOrUnknown gp k"
    if "Charlie s k pin rf idxs \<in> set (analyzeFailures pd sel)" for pin rf idxs
    using that unfolding mem by (auto simp: roleOf_def rm)
  show ?thesis using 1 2 by blast
qed

text \<open>
  Ordinal 0 of the example is the row of three keys and the column of two. Two failing
  row-role keys give \<open>in\<close>, the two column-role keys alone give \<open>out\<close>, all four give
  \<open>both\<close>.
\<close>

theorem charlie_reports_witness:
  "Charlie ''kb'' 0 ''xiao_d 0'' RoleIn [0, 1] \<in> set (analyzeFailures exCharlie [0, 1]) \<and>
   Charlie ''kb'' 0 ''xiao_d 0'' RoleOut [3, 4] \<in> set (analyzeFailures exCharlie [3, 4]) \<and>
   Charlie ''kb'' 0 ''xiao_d 0'' RoleBoth [0, 1, 3, 4] \<in> set (analyzeFailures exCharlie [0, 1, 3, 4]) \<and>
   \<not> (\<exists>pin rf idxs. Charlie ''kb'' 0 pin rf idxs \<in> set (analyzeFailures exCharlie [2]))"
proof -
  let ?gp = "[(0, ''xiao_d 0''), (1, ''xiao_d 1''), (2, ''xiao_d 2''), (3, ''xiao_d 3'')]"
  have v: "''kb'' \<in> set (validShields exCharlie)" by code_simp
  have p: "pinMapAt exCharlie ''kb'' = Some charliePins" by code_simp
  have g: "gpios charliePins = Some ?gp" by code_simp
  have pn: "pinOrUnknown ?gp 0 = ''xiao_d 0''" by code_simp
  have a: "failRatioOver exCharlie [0, 1] (\<lambda>q. side q = ''kb'' \<and> physR q = 0) 0.6 = True"
          "failRatioOver exCharlie [0, 1] (\<lambda>q. side q = ''kb'' \<and> physC q = 0) 0.6 = False"
          "filter (\<lambda>idx. idx \<in> set [0, 1]) (keysWhere exCharlie (\<lambda>q. side q = ''kb'' \<and> physR q = 0)) = [0, 1]"
    by code_simp+
  have b: "failRatioOver exCharlie [3, 4] (\<lambda>q. side q = ''kb'' \<and> physR q = 0) 0.6 = False"
          "failRatioOver exCharlie [3, 4] (\<lambda>q. side q = ''kb'' \<and> physC q = 0) 0.6 = True"
          "filter (\<lambda>idx. idx \<in> set [3, 4]) (keysWhere exCharlie (\<lambda>q. side q = ''kb'' \<and> physC q = 0)) = [3, 4]"
    by code_simp+
  have c: "failRatioOver exCharlie [0, 1, 3, 4] (\<lambda>q. side q = ''kb'' \<and> physR q = 0) 0.6 = True"
          "failRatioOver exCharlie [0, 1, 3, 4] (\<lambda>q. side q = ''kb'' \<and> physC q = 0) 0.6 = True"
          "filter (\<lambda>idx. idx \<in> set [0, 1, 3, 4])
             (keysWhere exCharlie (\<lambda>q. side q = ''kb'' \<and> (physR q = 0 \<or> physC q = 0))) = [0, 1, 3, 4]"
    by code_simp+
  have d: "failRatioOver exCharlie [2] (\<lambda>q. side q = ''kb'' \<and> physR q = 0) 0.6 = False"
          "failRatioOver exCharlie [2] (\<lambda>q. side q = ''kb'' \<and> physC q = 0) 0.6 = False"
    by code_simp+
  note A = charlie_reports[where k = 0 and sel = "[0, 1]", OF v p g refl refl, unfolded a pn]
  note B = charlie_reports[where k = 0 and sel = "[3, 4]", OF v p g refl refl, unfolded b pn]
  note C = charlie_reports[where k = 0 and sel = "[0, 1, 3, 4]", OF v p g refl refl, unfolded c pn]
  note D = charlie_reports[where k = 0 and sel = "[2]", OF v p g refl refl, unfolded d pn]
  from A obtain pin rf idxs where
    "Charlie ''kb'' 0 pin rf idxs \<in> set (analyzeFailures exCharlie [0, 1])" by auto
  with A have 1: "Charlie ''kb'' 0 ''xiao_d 0'' RoleIn [0, 1] \<in> set (analyzeFailures exCharlie [0, 1])"
    by auto
  from B obtain pin' rf' idxs' where
    "Charlie ''kb'' 0 pin' rf' idxs' \<in> set (analyzeFailures exCharlie [3, 4])" by auto
  with B have 2: "Charlie ''kb'' 0 ''xiao_d 0'' RoleOut [3, 4] \<in> set (analyzeFailures exCharlie [3, 4])"
    by auto
  from C obtain pin'' rf'' idxs'' where
    "Charlie ''kb'' 0 pin'' rf'' idxs'' \<in> set (analyzeFailures exCharlie [0, 1, 3, 4])" by auto
  with C have 3: "Charlie ''kb'' 0 ''xiao_d 0'' RoleBoth [0, 1, 3, 4] \<in> set (analyzeFailures exCharlie [0, 1, 3, 4])"
    by auto
  from D have 4: "\<not> (\<exists>pin rf idxs. Charlie ''kb'' 0 pin rf idxs \<in> set (analyzeFailures exCharlie [2]))"
    by auto
  show ?thesis using 1 2 3 4 by blast
qed

section \<open>Direct GPIO reports\<close>

lemma filter_side_concat:
  assumes "distinct vs" "s \<in> set vs" "\<And>s' rep. rep \<in> set (f s') \<Longrightarrow> rside rep = s'"
  shows "filter (\<lambda>rep. rside rep = s) (concat (map f vs)) = f s"
  using assms(1,2)
proof (induction vs)
  case Nil
  then show ?case by simp
next
  case (Cons x vs)
  have other: "s' \<noteq> s \<Longrightarrow> filter (\<lambda>rep. rside rep = s) (f s') = []" for s'
    using assms(3) by (auto simp: filter_empty_conv)
  have same: "filter (\<lambda>rep. rside rep = s) (f s) = f s"
    using assms(3) by (auto simp: filter_id_conv)
  have rest: "s \<notin> set vs \<Longrightarrow> filter (\<lambda>rep. rside rep = s) (concat (map f vs)) = []"
    using assms(3) by (auto simp: filter_empty_conv)
  show ?case
  proof (cases "x = s")
    case True
    with Cons.prems rest same show ?thesis by simp
  next
    case False
    with Cons other[of x] show ?thesis by simp
  qed
qed

lemma directStep_out:
  "fst (directStep pd s d idx ([], {})) =
     [Direct s (pinOrUnknown d (physC (getSideAndPhysCoords pd (matrixMapAt pd idx)))) idx [idx]]"
  by (simp add: directStep_def Let_def)

text \<open>
  C4 (as amended). On a valid shield with \<open>direct\<close> pins and no \<open>gpios\<close>, let the direct
  keys be the keys of the shield whose local column has a direct pin. If there are more
  than 2 of them and the selected ones are more than 0.8 of them, the shield's direct
  reports are one \<open>direct_gnd\<close> report with all the direct keys; otherwise they are one
  \<open>direct\<close> report for each selected direct key, with the pin of its local column
  (the pin is the column's: keys of one column share it). With 5 direct keys, 4 selected
  give four \<open>direct\<close> reports and no \<open>direct_gnd\<close>, 5 selected give one \<open>direct_gnd\<close>
  report with all 5.
\<close>

theorem direct_reports:
  assumes "distinct (map fst (pinMap pd))"
    and "s \<in> set (validShields pd)" "pinMapAt pd s = Some p" "gpios p = None" "direct p = Some d"
    and "directIndices = keysWhere pd (\<lambda>q. side q = s \<and> objGet d (physC q) \<noteq> None)"
    and "failing = filter (\<lambda>idx. idx \<in> set sel) directIndices"
  shows "filter (\<lambda>rep. rside rep = s \<and> (rtype rep = ''direct'' \<or> rtype rep = ''direct_gnd''))
                (analyzeFailures pd sel) =
         (if length directIndices > 2 \<and> real (length failing) / real (length directIndices) > 0.8
          then [DirectGnd s directIndices]
          else map (\<lambda>idx. Direct s (pinOrUnknown d (physC (getSideAndPhysCoords pd (matrixMapAt pd idx))))
                              idx [idx]) failing)"
proof -
  let ?L = "accumulate pd sel"
  let ?T = "\<lambda>rep. rtype rep = ''direct'' \<or> rtype rep = ''direct_gnd''"
  let ?D = "fst (directPass pd sel s d ([], {}))"
  have f1: "filter (\<lambda>rep. rside rep = s \<and> ?T rep) (analyzeFailures pd sel) =
        filter ?T (filter (\<lambda>rep. rside rep = s)
           (filter (\<lambda>rep. rtype rep \<noteq> ''single'') (analyzeFailures pd sel)))"
    by (auto simp: filter_filter intro!: filter_cong)
  have f2: "filter (\<lambda>rep. rside rep = s)
              (filter (\<lambda>rep. rtype rep \<noteq> ''single'') (analyzeFailures pd sel)) = lineReports pd sel ?L s"
    unfolding analyzeFailures_nonSingle
    using filter_side_concat[OF validShields_distinct[OF assms(1)] assms(2), of "lineReports pd sel ?L"]
          lineReports_out[of _ pd sel ?L] by blast
  have LR: "lineReports pd sel ?L s = fst (interruptPass pd sel s p ([], {})) @ ?D"
    using assms(3,4,5) by (simp add: lineReports_def modePass_def)
  have fI: "filter ?T (fst (interruptPass pd sel s p ([], {}))) = []"
    using interruptPass_out[of _ pd sel s p] by (auto simp: filter_empty_conv)
  have fD: "filter ?T ?D = ?D"
    using directPass_out[of _ pd sel s d] by (auto simp: filter_id_conv)
  have D: "?D = (if length directIndices > 2 \<and> real (length failing) / real (length directIndices) > 0.8
          then [DirectGnd s directIndices]
          else map (\<lambda>idx. Direct s (pinOrUnknown d (physC (getSideAndPhysCoords pd (matrixMapAt pd idx))))
                              idx [idx]) failing)"
    using assms(6,7)
    by (simp add: directPass_def Let_def ratioOver_def emitter_fold(2)[OF directStep_emitter]
                  directStep_out concat_map_singleton)
  have "filter (\<lambda>rep. rside rep = s \<and> ?T rep) (analyzeFailures pd sel) =
        filter ?T (lineReports pd sel ?L s)"
    using f1 f2 by (simp only:)
  also have "\<dots> = filter ?T (fst (interruptPass pd sel s p ([], {}))) @ filter ?T ?D"
    by (simp only: LR filter_append)
  also have "\<dots> = ?D" using fI fD by (simp only: append_Nil)
  finally show ?thesis using D by (simp only:)
qed

theorem direct_reports_witness:
  "filter (\<lambda>rep. rside rep = ''kb'' \<and> (rtype rep = ''direct'' \<or> rtype rep = ''direct_gnd''))
          (analyzeFailures exDirect [0, 1, 2, 3, 4]) = [DirectGnd ''kb'' [0, 1, 2, 3, 4]] \<and>
   filter (\<lambda>rep. rside rep = ''kb'' \<and> (rtype rep = ''direct'' \<or> rtype rep = ''direct_gnd''))
          (analyzeFailures exDirect [0, 1, 2, 3]) =
     [Direct ''kb'' ''xiao_d 0'' 0 [0], Direct ''kb'' ''xiao_d 1'' 1 [1],
      Direct ''kb'' ''xiao_d 2'' 2 [2], Direct ''kb'' ''xiao_d 3'' 3 [3]]"
proof -
  let ?d = "[(0, ''xiao_d 0''), (1, ''xiao_d 1''), (2, ''xiao_d 2''), (3, ''xiao_d 3''), (4, ''xiao_d 4'')]"
  have d: "distinct (map fst (pinMap exDirect))" by code_simp
  have v: "''kb'' \<in> set (validShields exDirect)" by code_simp
  have p: "pinMapAt exDirect ''kb'' = Some directPins" by code_simp
  have g: "gpios directPins = None" "direct directPins = Some ?d" by code_simp+
  have di: "[0, 1, 2, 3, 4] = keysWhere exDirect (\<lambda>q. side q = ''kb'' \<and> objGet ?d (physC q) \<noteq> None)"
    by code_simp
  have f5: "[0, 1, 2, 3, 4] = filter (\<lambda>idx. idx \<in> set [0, 1, 2, 3, 4]) [0, 1, 2, 3, 4 :: nat]"
    and f4: "[0, 1, 2, 3] = filter (\<lambda>idx. idx \<in> set [0, 1, 2, 3]) [0, 1, 2, 3, 4 :: nat]"
    by code_simp+
  have pins: "map (\<lambda>idx. Direct ''kb''
                 (pinOrUnknown ?d (physC (getSideAndPhysCoords exDirect (matrixMapAt exDirect idx)))) idx [idx])
               [0, 1, 2, 3] =
     [Direct ''kb'' ''xiao_d 0'' 0 [0], Direct ''kb'' ''xiao_d 1'' 1 [1],
      Direct ''kb'' ''xiao_d 2'' 2 [2], Direct ''kb'' ''xiao_d 3'' 3 [3]]"
    by code_simp
  note A = direct_reports[OF d v p g di f5]
  note B = direct_reports[OF d v p g di f4]
  from A have 1: "filter (\<lambda>rep. rside rep = ''kb'' \<and> (rtype rep = ''direct'' \<or> rtype rep = ''direct_gnd''))
          (analyzeFailures exDirect [0, 1, 2, 3, 4]) = [DirectGnd ''kb'' [0, 1, 2, 3, 4]]"
    by simp
  from B pins have 2: "filter (\<lambda>rep. rside rep = ''kb'' \<and> (rtype rep = ''direct'' \<or> rtype rep = ''direct_gnd''))
          (analyzeFailures exDirect [0, 1, 2, 3]) =
     [Direct ''kb'' ''xiao_d 0'' 0 [0], Direct ''kb'' ''xiao_d 1'' 1 [1],
      Direct ''kb'' ''xiao_d 2'' 2 [2], Direct ''kb'' ''xiao_d 3'' 3 [3]]"
    by simp
  show ?thesis using 1 2 by blast
qed


text \<open>
  Where the claim as stated fails. With four of the five direct keys failing, the code
  emits four \<open>direct\<close> reports, one for each failing key, not five. And the pin a
  \<open>direct\<close> report names is not owned by one key: two failing keys in the same local
  column, at different rows, are both reported with the pin of that column.
\<close>

theorem direct_reports_counterexample:
  "length (matrixMap exDirect) = 5 \<and>
   analyzeFailures exDirect [0, 1, 2, 3] =
     [Direct ''kb'' ''xiao_d 0'' 0 [0], Direct ''kb'' ''xiao_d 1'' 1 [1],
      Direct ''kb'' ''xiao_d 2'' 2 [2], Direct ''kb'' ''xiao_d 3'' 3 [3]] \<and>
   length (analyzeFailures exDirect [0, 1, 2, 3]) = 4 \<and>
   matrixMap exDirectShared = [Some \<lparr>r = 0, c = 0\<rparr>, Some \<lparr>r = 1, c = 0\<rparr>] \<and>
   analyzeFailures exDirectShared [0, 1] =
     [Direct ''kb'' ''xiao_d 0'' 0 [0], Direct ''kb'' ''xiao_d 0'' 1 [1]]"
  by code_simp

section \<open>The interrupt report\<close>

text \<open>
  C5. When the analysis runs (there is a valid shield), for a shield with an interrupt pin
  and more than 5 keys, if the selected keys of the shield are more than 0.8 of its keys,
  \<open>analyzeFailures\<close> emits an \<open>interrupt\<close> report whose indices are all the keys of the
  shield, selected or not, and no \<open>single\<close> report is emitted for any of them.
\<close>

theorem interrupt_report:
  assumes "validShields pd \<noteq> []" "pinMapAt pd s = Some p" "interrupt p = Some pin" "pin \<noteq> []"
    "length (keysWhere pd (\<lambda>q. side q = s)) > 5"
    "real (length (filter (keyAt pd (\<lambda>q. side q = s)) sel)) /
       real (length (keysWhere pd (\<lambda>q. side q = s))) > 0.8"
  shows "Interrupt s pin (keysWhere pd (\<lambda>q. side q = s)) \<in> set (analyzeFailures pd sel) \<and>
         (\<forall>rep \<in> set (analyzeFailures pd sel). rtype rep = ''single'' \<longrightarrow>
             set (rindices rep) \<inter> set (keysWhere pd (\<lambda>q. side q = s)) = {})"
proof -
  let ?L = "accumulate pd sel"
  let ?K = "keysWhere pd (\<lambda>q. side q = s)"
  from assms(5) obtain idx0 where "idx0 \<in> set ?K" by (cases ?K) auto
  then obtain m0 where "side (getSideAndPhysCoords pd (Some m0)) = s"
    by (auto simp: set_keysWhere keyAt_def split: option.splits)
  with getSideAndPhysCoords_valid[OF assms(1), of "Some m0"]
  have valid: "s \<in> set (validShields pd)" by simp
  have I: "fst (interruptPass pd sel s p ([], {})) = [Interrupt s pin ?K]"
    using assms(3-6) by (simp add: interruptPass_def Let_def ratioOver_def onSide_keyAt)
  then have LR: "Interrupt s pin ?K \<in> set (lineReports pd sel ?L s)"
    using assms(2) by (simp add: lineReports_def)
  have 1: "Interrupt s pin ?K \<in> set (analyzeFailures pd sel)"
    using analyzeFailures_line_mem[of "Interrupt s pin ?K" pd sel] LR valid by simp
  have cov: "set ?K \<subseteq> coveredBy (lineReports pd sel ?L s)"
    using LR by (auto simp: coveredBy_def intro!: bexI[of _ "Interrupt s pin ?K"])
  have 2: "set (rindices rep) \<inter> set ?K = {}"
    if rep: "rep \<in> set (analyzeFailures pd sel)" "rtype rep = ''single''" for rep
  proof -
    from analyzeFailures_single_mem[OF rep] obtain s' idx m where
      r: "rep = Single s' (r m) (c m) idx [idx]" "matrixMapAt pd idx = Some m"
         "side (getSideAndPhysCoords pd (Some m)) = s'"
         "idx \<notin> coveredBy (lineReports pd sel ?L s')"
      by blast
    have "idx \<notin> set ?K"
    proof
      assume "idx \<in> set ?K"
      then have "s' = s" using r(2,3) by (simp add: set_keysWhere keyAt_def)
      with r(4) cov \<open>idx \<in> set ?K\<close> show False by auto
    qed
    then show ?thesis using r(1) by simp
  qed
  show ?thesis using 1 2 by blast
qed

theorem interrupt_report_witness:
  "Interrupt ''kb'' ''xiao_d 9'' [0, 1, 2, 3, 4, 5] \<in> set (analyzeFailures exCharlie [0, 1, 2, 3, 4]) \<and>
   \<not> (\<exists>rep \<in> set (analyzeFailures exCharlie [0, 1, 2, 3, 4]).
         rtype rep = ''single'' \<and> set (rindices rep) \<inter> set [0, 1, 2, 3, 4, 5] \<noteq> {})"
proof -
  have v: "validShields exCharlie \<noteq> []" by code_simp
  have p: "pinMapAt exCharlie ''kb'' = Some charliePins" by code_simp
  have i: "interrupt charliePins = Some ''xiao_d 9''" by code_simp
  have n: "''xiao_d 9'' \<noteq> []" by simp
  have k: "keysWhere exCharlie (\<lambda>q. side q = ''kb'') = [0, 1, 2, 3, 4, 5]" by code_simp
  have t: "length (keysWhere exCharlie (\<lambda>q. side q = ''kb'')) > 5" by code_simp
  have f: "real (length (filter (keyAt exCharlie (\<lambda>q. side q = ''kb'')) [0, 1, 2, 3, 4])) /
             real (length (keysWhere exCharlie (\<lambda>q. side q = ''kb''))) > 0.8"
    by code_simp
  note T = interrupt_report[OF v p i n t f, unfolded k]
  from T show ?thesis by blast
qed

section \<open>No state between calls\<close>

lemma selection_order:
  "analyzeFailures exStd [0, 1] = [Single ''kb'' 0 0 0 [0], Single ''kb'' 0 1 1 [1]] \<and>
   analyzeFailures exStd [1, 0] = [Single ''kb'' 0 1 1 [1], Single ''kb'' 0 0 0 [0]]"
  by code_simp

text \<open>A run never assigns to the globals.\<close>

lemma analyzeFailures_run_globals:
  "g_parsedData (snd (analyzeFailures_run \<sigma>)) = g_parsedData \<sigma> \<and>
   g_selectedIndices (snd (analyzeFailures_run \<sigma>)) = g_selectedIndices \<sigma>"
  by (simp add: analyzeFailures_run_def runSelected_def runValidShields_def runAccumulate_def
                runAnalyze_def Let_def)

text \<open>
  Every slot is assigned before it is read, so the report of a run is the function
  \<open>analyzeFailures\<close> of the two globals, whatever the slots held.
\<close>

lemma analyzeFailures_run_report:
  "fst (analyzeFailures_run \<sigma>) = analyzeFailures (g_parsedData \<sigma>) (g_selectedIndices \<sigma>)"
  by (simp add: analyzeFailures_run_def runSelected_def runValidShields_def runAccumulate_def
                runAnalyze_def analyzeFailures_def accumulate_def Let_def)

text \<open>
  C8. Two runs of \<open>analyzeFailures\<close> on stores with the same topology and the same
  selected keys return the same report list, in the same order, whatever earlier calls
  left in the variables of the function; a run leaves the topology and the selection as
  they were; so a second run right after a first returns the same list, and a run after
  the selection has changed returns what a run on a store with nothing retained returns
  for that selection. (The selection is the set with its insertion order, which
  \<open>Array.from\<close> exposes and an unchanged set keeps.)
\<close>

theorem analyzeFailures_call_stateless:
  assumes "g_parsedData \<sigma>' = g_parsedData \<sigma>" "g_selectedIndices \<sigma>' = g_selectedIndices \<sigma>"
  shows "fst (analyzeFailures_run \<sigma>') = fst (analyzeFailures_run \<sigma>) \<and>
         g_parsedData (snd (analyzeFailures_run \<sigma>)) = g_parsedData \<sigma> \<and>
         g_selectedIndices (snd (analyzeFailures_run \<sigma>)) = g_selectedIndices \<sigma> \<and>
         fst (analyzeFailures_run (snd (analyzeFailures_run \<sigma>))) = fst (analyzeFailures_run \<sigma>) \<and>
         fst (analyzeFailures_run ((snd (analyzeFailures_run \<sigma>))\<lparr>g_selectedIndices := sel'\<rparr>)) =
           fst (analyzeFailures_run
                  \<lparr>g_parsedData = g_parsedData \<sigma>, g_selectedIndices = sel', l_selected = [],
                   l_report = [], l_validShields = [], l_objects = noLocals,
                   l_coveredIndices = {}\<rparr>)"
proof -
  have same: "fst (analyzeFailures_run \<sigma>') = fst (analyzeFailures_run \<sigma>)"
    using assms by (simp add: analyzeFailures_run_report)
  have again: "fst (analyzeFailures_run (snd (analyzeFailures_run \<sigma>))) = fst (analyzeFailures_run \<sigma>)"
    using analyzeFailures_run_globals[of \<sigma>]
    by (simp add: analyzeFailures_run_report[of "snd (analyzeFailures_run \<sigma>)"]
                  analyzeFailures_run_report[of \<sigma>])
  have changed: "fst (analyzeFailures_run ((snd (analyzeFailures_run \<sigma>))\<lparr>g_selectedIndices := sel'\<rparr>)) =
           fst (analyzeFailures_run
                  \<lparr>g_parsedData = g_parsedData \<sigma>, g_selectedIndices = sel', l_selected = [],
                   l_report = [], l_validShields = [], l_objects = noLocals,
                   l_coveredIndices = {}\<rparr>)"
    using analyzeFailures_run_globals[of \<sigma>] by (simp add: analyzeFailures_run_report)
  show ?thesis using same again changed analyzeFailures_run_globals[of \<sigma>] by blast
qed

text \<open>
  The store with a report, covered indices, counts and a list of shields left from a
  selection of three keys gives, for the selection of two, the report list that the
  store with empty slots gives: two \<open>single\<close> reports, none of the retained ones.
\<close>

theorem analyzeFailures_call_stateless_witness:
  "l_coveredIndices exStaleStore = {0, 1, 2} \<and>
   l_report exStaleStore = [Row ''kb'' 0 (Some ''gpio0 1'') [0, 1, 2], Col ''kb'' 2 (Some ''gpio0 5'') [2]] \<and>
   fst (analyzeFailures_run exStaleStore) = fst (analyzeFailures_run exFreshStore) \<and>
   fst (analyzeFailures_run exFreshStore) = [Single ''kb'' 0 0 0 [0], Single ''kb'' 0 1 1 [1]]"
proof -
  have g: "g_parsedData exStaleStore = g_parsedData exFreshStore"
          "g_selectedIndices exStaleStore = g_selectedIndices exFreshStore"
    by (simp_all add: exStaleStore_def exFreshStore_def)
  have s: "l_coveredIndices exStaleStore = {0, 1, 2}"
          "l_report exStaleStore = [Row ''kb'' 0 (Some ''gpio0 1'') [0, 1, 2], Col ''kb'' 2 (Some ''gpio0 5'') [2]]"
    by (simp_all add: exStaleStore_def)
  have f: "fst (analyzeFailures_run exFreshStore) = [Single ''kb'' 0 0 0 [0], Single ''kb'' 0 1 1 [1]]"
    by code_simp
  from analyzeFailures_call_stateless[OF g]
  have "fst (analyzeFailures_run exStaleStore) = fst (analyzeFailures_run exFreshStore)" by blast
  then show ?thesis using s f by blast
qed

section \<open>Single key reports\<close>

text \<open>
  C7. A selected key that has a matrix entry, resolves to a valid shield and is in the
  indices of no report other than \<open>single\<close> ones is in exactly one \<open>single\<close> report of the
  output, and that report carries the shield and the key's logical row and column.
  (\<open>selected\<close> comes from a set, and the names of \<open>pinMap\<close> are the properties of an
  object: neither repeats an element.)
\<close>

theorem single_exactly_once:
  assumes "distinct (map fst (pinMap pd))" "distinct sel"
    "idx \<in> set sel" "matrixMapAt pd idx = Some m"
    "side (getSideAndPhysCoords pd (Some m)) \<in> set (validShields pd)"
    "\<forall>rep \<in> set (analyzeFailures pd sel). rtype rep \<noteq> ''single'' \<longrightarrow> idx \<notin> set (rindices rep)"
  shows "length (filter (\<lambda>rep. rtype rep = ''single'' \<and> idx \<in> set (rindices rep))
                   (analyzeFailures pd sel)) = 1 \<and>
         filter (\<lambda>rep. rtype rep = ''single'' \<and> idx \<in> set (rindices rep)) (analyzeFailures pd sel) =
           [Single (side (getSideAndPhysCoords pd (Some m))) (r m) (c m) idx [idx]]"
proof -
  let ?L = "accumulate pd sel"
  let ?vs = "validShields pd"
  let ?st = "fold (analyzeSide pd sel ?L) ?vs ([], {})"
  let ?isS = "\<lambda>rep. rtype rep = ''single'' \<and> idx \<in> set (rindices rep)"
  have ne: "length ?vs \<noteq> 0" using assms(5) by auto
  then have out: "analyzeFailures pd sel = fst ?st" by (simp add: analyzeFailures_def)
  have "idx \<notin> coveredBy (analyzeFailures pd sel)"
    using assms(6) by (auto simp: coveredBy_def)
  then have nc: "idx \<notin> snd ?st"
    by (simp add: analyze_fold_covered analyzeFailures_covered)
  have pm: "\<forall>s \<in> set ?vs. pinMapAt pd s \<noteq> None" using validShields_pinMapAt by fastforce
  from analyze_fold_single_count[OF validShields_distinct[OF assms(1)] assms(2,3,4) nc pm] assms(5)
  have len: "length (filter ?isS (analyzeFailures pd sel)) = 1" by (simp add: out)
  then obtain rep where f: "filter ?isS (analyzeFailures pd sel) = [rep]"
    by (cases "filter ?isS (analyzeFailures pd sel)") auto
  then have "rep \<in> set (filter ?isS (analyzeFailures pd sel))" by simp
  then have rep: "rep \<in> set (analyzeFailures pd sel)" "rtype rep = ''single''" "idx \<in> set (rindices rep)"
    by auto
  from analyzeFailures_single_mem[OF rep(1,2)] obtain s' idx' m' where
    r: "rep = Single s' (r m') (c m') idx' [idx']" "matrixMapAt pd idx' = Some m'"
       "side (getSideAndPhysCoords pd (Some m')) = s'"
    by blast
  from r(1) rep(3) have "idx' = idx" by simp
  with r assms(4) have "rep = Single (side (getSideAndPhysCoords pd (Some m))) (r m) (c m) idx [idx]"
    by simp
  with f len show ?thesis by simp
qed

theorem single_exactly_once_witness:
  "filter (\<lambda>rep. rtype rep = ''single'' \<and> 0 \<in> set (rindices rep)) (analyzeFailures exStd [0, 1]) =
     [Single ''kb'' 0 0 0 [0]]"
proof -
  have d: "distinct (map fst (pinMap exStd))" by code_simp
  have s: "distinct [0, 1 :: nat]" "(0 :: nat) \<in> set [0, 1]" by simp_all
  have m: "matrixMapAt exStd 0 = Some \<lparr>r = 0, c = 0\<rparr>" by code_simp
  have o: "side (getSideAndPhysCoords exStd (Some \<lparr>r = 0, c = 0\<rparr>)) = ''kb''" by code_simp
  have v: "side (getSideAndPhysCoords exStd (Some \<lparr>r = 0, c = 0\<rparr>)) \<in> set (validShields exStd)"
    by code_simp
  have n: "\<forall>rep \<in> set (analyzeFailures exStd [0, 1]). rtype rep \<noteq> ''single'' \<longrightarrow> 0 \<notin> set (rindices rep)"
    by code_simp
  from single_exactly_once[OF d s m v n] show ?thesis unfolding o by simp
qed

section \<open>One wiring-mode pass for each shield\<close>

text \<open>
  C9. For a valid shield, the reports other than \<open>interrupt\<close> and \<open>single\<close> ones are those
  of exactly one analysis: the charlieplex one when the shield has \<open>gpios\<close> (whatever
  other pin lists it has), otherwise the direct one when it has \<open>direct\<close> pins, otherwise
  the standard matrix one. Every report of that analysis is in the output, and every
  report of the shield in the output is \<open>interrupt\<close>, \<open>single\<close> or one of that analysis.
  (The parser adds \<open>gpios\<close> to a shield only with at least one pin, so a shield has
  \<open>gpios\<close> exactly when its \<open>gpios\<close> list is not empty.)
\<close>

theorem analyzeFailures_one_mode:
  assumes "s \<in> set (validShields pd)" "pinMapAt pd s = Some p"
  shows "(\<forall>rep \<in> set (analyzeFailures pd sel). rside rep = s \<longrightarrow>
            rtype rep = ''interrupt'' \<or> rtype rep = ''single'' \<or>
            (case gpios p of
               Some gp \<Rightarrow> rtype rep = ''charlie'' \<and>
                          rep \<in> set (fst (charliePass pd sel (accumulate pd sel) s gp ([], {})))
             | None \<Rightarrow>
                 (case direct p of
                    Some d \<Rightarrow> (rtype rep = ''direct'' \<or> rtype rep = ''direct_gnd'') \<and>
                              rep \<in> set (fst (directPass pd sel s d ([], {})))
                  | None \<Rightarrow> (rtype rep = ''row'' \<or> rtype rep = ''col'') \<and>
                            rep \<in> set (fst (standardPass (accumulate pd sel) s p ([], {})))))) \<and>
         (case gpios p of
            Some gp \<Rightarrow> set (fst (charliePass pd sel (accumulate pd sel) s gp ([], {})))
          | None \<Rightarrow>
              (case direct p of
                 Some d \<Rightarrow> set (fst (directPass pd sel s d ([], {})))
               | None \<Rightarrow> set (fst (standardPass (accumulate pd sel) s p ([], {})))))
          \<subseteq> set (analyzeFailures pd sel)"
proof -
  let ?L = "accumulate pd sel"
  let ?M = "fst (modePass pd sel ?L s p ([], {}))"
  have M: "?M = (case gpios p of
            Some gp \<Rightarrow> fst (charliePass pd sel ?L s gp ([], {}))
          | None \<Rightarrow> (case direct p of Some d \<Rightarrow> fst (directPass pd sel s d ([], {}))
               | None \<Rightarrow> fst (standardPass ?L s p ([], {}))))"
    by (simp add: modePass_def split: option.splits)
  have LR: "lineReports pd sel ?L s = fst (interruptPass pd sel s p ([], {})) @ ?M"
    using assms(2) by (simp add: lineReports_def)
  have a: "rtype rep = ''interrupt'' \<or> rtype rep = ''single'' \<or>
            (case gpios p of
               Some gp \<Rightarrow> rtype rep = ''charlie'' \<and> rep \<in> set (fst (charliePass pd sel ?L s gp ([], {})))
             | None \<Rightarrow>
                 (case direct p of
                    Some d \<Rightarrow> (rtype rep = ''direct'' \<or> rtype rep = ''direct_gnd'') \<and>
                              rep \<in> set (fst (directPass pd sel s d ([], {})))
                  | None \<Rightarrow> (rtype rep = ''row'' \<or> rtype rep = ''col'') \<and>
                            rep \<in> set (fst (standardPass ?L s p ([], {})))))"
    if rep: "rep \<in> set (analyzeFailures pd sel)" "rside rep = s" for rep
  proof (cases "rtype rep = ''single''")
    case True
    then show ?thesis by simp
  next
    case False
    with rep analyzeFailures_line_mem[OF False, of pd sel]
    have "rep \<in> set (fst (interruptPass pd sel s p ([], {}))) \<or> rep \<in> set ?M"
      by (auto simp: LR)
    then show ?thesis
    proof
      assume "rep \<in> set (fst (interruptPass pd sel s p ([], {})))"
      from interruptPass_out[OF this] show ?thesis by simp
    next
      assume m: "rep \<in> set ?M"
      from modePass_out[OF m] m show ?thesis
        unfolding M by (auto split: option.splits)
    qed
  qed
  have b: "set ?M \<subseteq> set (analyzeFailures pd sel)"
  proof
    fix rep assume m: "rep \<in> set ?M"
    from modePass_out[OF m] have ns: "rtype rep \<noteq> ''single''" and sd: "rside rep = s"
      by (auto split: option.splits)
    show "rep \<in> set (analyzeFailures pd sel)"
      using analyzeFailures_line_mem[OF ns, of pd sel] sd assms(1) m by (simp add: LR)
  qed
  have b': "(case gpios p of
            Some gp \<Rightarrow> set (fst (charliePass pd sel ?L s gp ([], {})))
          | None \<Rightarrow> (case direct p of Some d \<Rightarrow> set (fst (directPass pd sel s d ([], {})))
               | None \<Rightarrow> set (fst (standardPass ?L s p ([], {}))))) = set ?M"
    unfolding M by (simp split: option.splits)
  show ?thesis using a b unfolding b' by blast
qed

text \<open>A shield with row, column, direct and \<open>gpios\<close> pins gets charlieplex reports only.\<close>

theorem analyzeFailures_one_mode_witness:
  "nonEmptyObj (row mixedPins) \<and> nonEmptyObj (col mixedPins) \<and> nonEmptyObj (direct mixedPins) \<and>
   \<not> (\<exists>rep \<in> set (analyzeFailures exMixed [0]). rside rep = ''kb'' \<and>
         rtype rep \<noteq> ''interrupt'' \<and> rtype rep \<noteq> ''single'' \<and> rtype rep \<noteq> ''charlie'') \<and>
   set (fst (charliePass exMixed [0] (accumulate exMixed [0]) ''kb''
               [(0, ''xiao_d 0''), (1, ''xiao_d 1'')] ([], {})))
     \<subseteq> set (analyzeFailures exMixed [0])"
proof -
  have v: "''kb'' \<in> set (validShields exMixed)" by code_simp
  have p: "pinMapAt exMixed ''kb'' = Some mixedPins" by code_simp
  have g: "gpios mixedPins = Some [(0, ''xiao_d 0''), (1, ''xiao_d 1'')]" by code_simp
  have e: "nonEmptyObj (row mixedPins) \<and> nonEmptyObj (col mixedPins) \<and> nonEmptyObj (direct mixedPins)"
    by code_simp
  note T = analyzeFailures_one_mode[where sel = "[0]", OF v p, unfolded g option.case]
  from T have 1: "\<not> (\<exists>rep \<in> set (analyzeFailures exMixed [0]). rside rep = ''kb'' \<and>
         rtype rep \<noteq> ''interrupt'' \<and> rtype rep \<noteq> ''single'' \<and> rtype rep \<noteq> ''charlie'')"
    by blast
  from T have 2: "set (fst (charliePass exMixed [0] (accumulate exMixed [0]) ''kb''
               [(0, ''xiao_d 0''), (1, ''xiao_d 1'')] ([], {})))
     \<subseteq> set (analyzeFailures exMixed [0])" by blast
  show ?thesis using e 1 2 by blast
qed

section \<open>No valid shield\<close>

lemma validShields_empty:
  assumes "\<forall>p \<in> snd ` set (pinMap pd). \<not> hasPins p"
  shows "validShields pd = []"
proof -
  have "\<not> (case pinMapAt pd s of None \<Rightarrow> False | Some p \<Rightarrow> hasPins p)" for s
  proof (cases "pinMapAt pd s")
    case None
    then show ?thesis by simp
  next
    case (Some p)
    then have "(s, p) \<in> set (pinMap pd)" by (simp add: pinMapAt_def map_of_SomeD)
    then have "p \<in> snd ` set (pinMap pd)" by force
    with assms have "\<not> hasPins p" by blast
    with Some show ?thesis by simp
  qed
  then show ?thesis by (simp add: validShields_def)
qed

text \<open>
  C10. If no shield of the topology has a non-empty pin list (\<open>row\<close>, \<open>col\<close>, \<open>gpios\<close>
  or \<open>direct\<close>), \<open>analyzeFailures\<close> returns the empty report list whatever the selected
  keys are: no \<open>single\<close> report, and no error.
\<close>

theorem analyzeFailures_no_valid_shield:
  assumes "\<forall>p \<in> snd ` set (pinMap pd).
             \<not> nonEmptyObj (row p) \<and> \<not> nonEmptyObj (col p) \<and>
             \<not> nonEmptyObj (gpios p) \<and> \<not> nonEmptyObj (direct p)"
  shows "analyzeFailures pd selected = []"
proof -
  have "\<forall>p \<in> snd ` set (pinMap pd). \<not> hasPins p"
    using assms by (simp add: hasPins_def)
  then have "validShields pd = []" by (rule validShields_empty)
  then show ?thesis by (simp add: analyzeFailures_def)
qed

theorem analyzeFailures_no_valid_shield_witness:
  "matrixMapAt exInitial 0 \<noteq> None \<and> matrixMapAt exInitial 1 \<noteq> None \<and>
   analyzeFailures exInitial [0, 1] = []"
proof -
  have h: "\<forall>p \<in> snd ` set (pinMap exInitial).
             \<not> nonEmptyObj (row p) \<and> \<not> nonEmptyObj (col p) \<and>
             \<not> nonEmptyObj (gpios p) \<and> \<not> nonEmptyObj (direct p)"
    by (simp add: exInitial_def noPins_def nonEmptyObj_def)
  have k: "matrixMapAt exInitial 0 \<noteq> None \<and> matrixMapAt exInitial 1 \<noteq> None"
    by (simp add: exInitial_def matrixMapAt_def rc_def)
  from analyzeFailures_no_valid_shield[OF h, of "[0, 1]"] k show ?thesis by simp
qed

end
